theory Spec2Isabelle
  imports Main "HOL-Library.Multiset"
begin

section \<open>Shared vocabulary\<close>

text \<open>
  \<^verbatim>\<open>type CompareResult = -1 | 0 | 1\<close> and
  \<^verbatim>\<open>type Comparator<T> = (lhs: T, rhs: T) => CompareResult\<close>.
  The result is kept as a number, since the code tests it with \<^verbatim>\<open>=== 1\<close>,
  \<^verbatim>\<open>=== -1\<close>, \<^verbatim>\<open>=== 0\<close> and \<^verbatim>\<open>!== -1\<close>.
\<close>

type_synonym 'a Comparator = "'a \<Rightarrow> 'a \<Rightarrow> int"

text \<open>Every \<^verbatim>\<open>throw new RangeError(msg)\<close> of the source is the value \<open>Inl (RangeError msg)\<close>.\<close>

datatype error = RangeError string

text \<open>The numeric comparator of the test-suite: the larger number is the larger element.\<close>

definition maxComparator :: "int Comparator" where
  "maxComparator a b = (if a > b then 1 else if a < b then -1 else 0)"


text \<open>
  What the documentation of both classes asks of a comparator: a three-way comparison of a
  total preorder. This is a property of the caller's argument, not code of the library.
\<close>

definition consistent :: "'a Comparator \<Rightarrow> bool" where
  "consistent cmp \<longleftrightarrow>
     (\<forall>a b. cmp a b = -1 \<or> cmp a b = 0 \<or> cmp a b = 1) \<and>
     (\<forall>a. cmp a a = 0) \<and>
     (\<forall>a b. cmp b a = - cmp a b) \<and>
     (\<forall>a b c. cmp a b \<le> 0 \<and> cmp b c \<le> 0 \<longrightarrow> cmp a c \<le> 0)"

section \<open>BinaryHeap\<close>

text \<open>
  The instance state is the backing array \<^verbatim>\<open>_heap\<close>, a list; the comparator is a
  parameter of every operation. Elements are proper values of \<open>'a\<close>: \<^verbatim>\<open>null\<close> and
  \<^verbatim>\<open>undefined\<close> only arise from reading the array outside its bounds, which
  \<open>arr_get\<close> returns as \<open>None\<close>.
\<close>

definition arr_get :: "'a list \<Rightarrow> int \<Rightarrow> 'a option" where
  "arr_get h i = (if 0 \<le> i \<and> i < int (length h) then Some (h ! nat i) else None)"

text \<open>
  Modelled from the spec: \<^verbatim>\<open>exists\<close> (util/exists, imported by BinaryHeap.ts, is not among
  the sources). The spec's sift-down runs "while either child exists", a child being a cell
  of the array, and its scenario builds a heap from \<open>[5,4,3,2,1,0]\<close>, so the number \<open>0\<close>
  exists: the test is "neither null nor undefined".
\<close>

definition exists :: "'a option \<Rightarrow> bool" where
  "exists v = (v \<noteq> None)"

definition heapPropertyHolds :: "'a Comparator \<Rightarrow> 'a \<Rightarrow> 'a \<Rightarrow> bool" where
  "heapPropertyHolds cmp parent child = (let comparisonResult = cmp parent child in comparisonResult \<noteq> -1)"

definition childrenIndexesOf :: "nat \<Rightarrow> nat \<times> nat" where
  "childrenIndexesOf index = (2 * index + 1, 2 * index + 2)"

definition parentIndexOf :: "nat \<Rightarrow> int" where
  "parentIndexOf index =
     (if index = 0 then -1
      else let isEven = (index mod 2 = 0)
           in if isEven then (int index - 2) div 2 else (int index - 1) div 2)"

text \<open>
  \<^verbatim>\<open>swap\<close> reads both cells and writes them crosswise. Every call in the source passes
  two indices inside the array: \<^verbatim>\<open>poll\<close> after its size check, \<^verbatim>\<open>remove\<close> with the index
  it found, \<^verbatim>\<open>heapifyDown\<close> with the index it was given and that of a child that exists.
  So the two list updates are the two array writes.
\<close>

definition swap :: "'a list \<Rightarrow> nat \<Rightarrow> nat \<Rightarrow> 'a list" where
  "swap h indexA indexB = (let a = h ! indexA; b = h ! indexB in (h[indexA := b])[indexB := a])"

definition swapWithLast :: "'a list \<Rightarrow> nat \<Rightarrow> 'a list" where
  "swapWithLast h index = swap h index (length h - 1)"

text \<open>
  The loop of \<^verbatim>\<open>heapifyUp\<close>: \<open>current\<close> is the element being moved, \<open>currentIndex\<close> its
  position; the parent cell is read afresh on every round.
\<close>

function heapifyUp_loop :: "'a Comparator \<Rightarrow> 'a list \<Rightarrow> 'a \<Rightarrow> nat \<Rightarrow> nat \<times> 'a list" where
  "heapifyUp_loop cmp h current currentIndex =
     (let parentIndex = parentIndexOf currentIndex in
      case arr_get h parentIndex of
        None \<Rightarrow> (currentIndex, h)
      | Some parent \<Rightarrow>
          if \<not> heapPropertyHolds cmp parent current
          then heapifyUp_loop cmp ((h[nat parentIndex := current])[currentIndex := parent])
                 current (nat parentIndex)
          else (currentIndex, h))"
  by pat_completeness auto
termination
proof (relation "measure (\<lambda>(cmp, h, current, currentIndex). currentIndex)")
  fix cmp :: "'a Comparator" and h :: "'a list" and current parent :: 'a
    and currentIndex :: nat and parentIndex :: int
  assume p: "parentIndex = parentIndexOf currentIndex" and g: "arr_get h parentIndex = Some parent"
  have "0 \<le> parentIndex" using g by (simp add: arr_get_def split: if_splits)
  then have "currentIndex \<noteq> 0" using p by (cases "currentIndex = 0") (simp_all add: parentIndexOf_def)
  then have "nat parentIndex < currentIndex"
    unfolding p parentIndexOf_def Let_def by (cases "currentIndex mod 2 = 0") simp_all
  then show "((cmp, (h[nat parentIndex := current])[currentIndex := parent], current, nat parentIndex),
              (cmp, h, current, currentIndex))
             \<in> measure (\<lambda>(cmp, h, current, currentIndex). currentIndex)"
    by simp
qed simp

text \<open>
  \<^verbatim>\<open>heapifyUp(index)\<close> and \<^verbatim>\<open>heapifyDown(index)\<close> return the new index and leave the array
  updated; the index that the source appends to the message of their RangeError is left out.
\<close>

definition heapifyUp :: "'a Comparator \<Rightarrow> 'a list \<Rightarrow> nat \<Rightarrow> error + (nat \<times> 'a list)" where
  "heapifyUp cmp h index =
     (let current = arr_get h (int index) in
      if \<not> exists current then Inl (RangeError ''No element found at index'')
      else Inr (heapifyUp_loop cmp h (the current) index))"

text \<open>
  \<^verbatim>\<open>exists(child) && !this.heapPropertyHolds(current, child)\<close>, one disjunct of the loop
  condition of \<^verbatim>\<open>heapifyDown\<close>.
\<close>

definition violates :: "'a Comparator \<Rightarrow> 'a \<Rightarrow> 'a option \<Rightarrow> bool" where
  "violates cmp current child = (exists child \<and> \<not> heapPropertyHolds cmp current (the child))"

function heapifyDown_loop :: "'a Comparator \<Rightarrow> 'a list \<Rightarrow> 'a \<Rightarrow> nat \<Rightarrow> nat \<times> 'a list" where
  "heapifyDown_loop cmp h current index =
     (let (leftChildIndex, rightChildIndex) = childrenIndexesOf index;
          leftChild = arr_get h (int leftChildIndex);
          rightChild = arr_get h (int rightChildIndex)
      in if violates cmp current leftChild \<or> violates cmp current rightChild
         then let toSwapIndex =
                    (if \<not> exists leftChild then rightChildIndex
                     else if \<not> exists rightChild then leftChildIndex
                     else if heapPropertyHolds cmp (the leftChild) (the rightChild) then leftChildIndex
                     else rightChildIndex)
              in heapifyDown_loop cmp (swap h toSwapIndex index) current toSwapIndex
         else (index, h))"
  by pat_completeness auto
termination
  by (relation "measure (\<lambda>(cmp, h, current, index). length h - index)")
     (auto simp: arr_get_def childrenIndexesOf_def violates_def exists_def swap_def Let_def
           split: if_splits)

definition heapifyDown :: "'a Comparator \<Rightarrow> 'a list \<Rightarrow> nat \<Rightarrow> error + (nat \<times> 'a list)" where
  "heapifyDown cmp h index =
     (let current = arr_get h (int index) in
      if \<not> exists current then Inl (RangeError ''No element found at index'')
      else Inr (heapifyDown_loop cmp h (the current) index))"

text \<open>
  The constructor: \<^verbatim>\<open>for (let i = this.size - 1; i >= 0; i--) this.heapifyDown(i)\<close>.
  \<open>constructor_loop cmp h n\<close> runs the rounds \<open>i = n - 1, ..., 0\<close>.
\<close>

fun constructor_loop :: "'a Comparator \<Rightarrow> 'a list \<Rightarrow> nat \<Rightarrow> error + 'a list" where
  "constructor_loop cmp h 0 = Inr h"
| "constructor_loop cmp h (Suc i) =
     (case heapifyDown cmp h i of
        Inl e \<Rightarrow> Inl e
      | Inr (_, h') \<Rightarrow> constructor_loop cmp h' i)"

definition heap_constructor :: "'a Comparator \<Rightarrow> 'a list \<Rightarrow> error + 'a list" where
  "heap_constructor cmp items = constructor_loop cmp items (length items)"

definition heap_size :: "'a list \<Rightarrow> nat" where
  "heap_size h = length h"

definition heap_add :: "'a Comparator \<Rightarrow> 'a list \<Rightarrow> 'a \<Rightarrow> error + 'a list" where
  "heap_add cmp h element =
     (let h1 = h @ [element] in
      case heapifyUp cmp h1 (heap_size h1 - 1) of
        Inl e \<Rightarrow> Inl e
      | Inr (_, h2) \<Rightarrow> Inr h2)"

definition heap_poll :: "'a Comparator \<Rightarrow> 'a list \<Rightarrow> error + ('a \<times> 'a list)" where
  "heap_poll cmp h =
     (if heap_size h = 0 then Inl (RangeError ''Heap is empty'')
      else let first = h ! 0;
               h1 = swapWithLast h 0;
               h2 = butlast h1
           in if heap_size h2 > 0
              then (case heapifyDown cmp h2 0 of
                      Inl e \<Rightarrow> Inl e
                    | Inr (_, h3) \<Rightarrow> Inr (first, h3))
              else Inr (first, h2))"

text \<open>\<^verbatim>\<open>peek\<close> is the single statement \<^verbatim>\<open>return this._heap[0]\<close>: an array read, no throw.\<close>

definition heap_peek :: "'a list \<Rightarrow> error + ('a option \<times> 'a list)" where
  "heap_peek h = Inr (arr_get h 0, h)"

text \<open>\<^verbatim>\<open>Array.prototype.indexOf\<close>: the first index holding the element, or \<open>-1\<close>.\<close>

fun indexOf :: "'a list \<Rightarrow> 'a \<Rightarrow> int" where
  "indexOf [] x = -1"
| "indexOf (y # ys) x =
     (if y = x then 0 else let i = indexOf ys x in if i = -1 then -1 else i + 1)"

definition heap_remove :: "'a Comparator \<Rightarrow> 'a list \<Rightarrow> 'a \<Rightarrow> error + ('a \<times> 'a list)" where
  "heap_remove cmp h element =
     (let index = indexOf h element in
      if index = -1 then Inl (RangeError ''No element found to remove'')
      else let h1 = swapWithLast h (nat index);
               h2 = butlast h1
           in if heap_size h2 > 0 \<and> nat index < heap_size h2
              then (case heapifyUp cmp h2 (nat index) of
                      Inl e \<Rightarrow> Inl e
                    | Inr (newIndex, h3) \<Rightarrow>
                        if newIndex = nat index
                        then (case heapifyDown cmp h3 newIndex of
                                Inl e \<Rightarrow> Inl e
                              | Inr (_, h4) \<Rightarrow> Inr (element, h4))
                        else Inr (element, h3))
              else Inr (element, h2))"

text \<open>\<open>polls cmp h n\<close>: \<open>n\<close> successive calls of \<^verbatim>\<open>poll\<close>, collecting what they return.\<close>

fun polls :: "'a Comparator \<Rightarrow> 'a list \<Rightarrow> nat \<Rightarrow> error + ('a list \<times> 'a list)" where
  "polls cmp h 0 = Inr ([], h)"
| "polls cmp h (Suc n) =
     (case heap_poll cmp h of
        Inl e \<Rightarrow> Inl e
      | Inr (x, h') \<Rightarrow>
          (case polls cmp h' n of
             Inl e \<Rightarrow> Inl e
           | Inr (xs, h'') \<Rightarrow> Inr (x # xs, h'')))"

text \<open>A client of the heap: a sequence of \<^verbatim>\<open>add\<close> and \<^verbatim>\<open>poll\<close> calls, which stops at the
  first call that throws and collects what the polls return.\<close>

datatype 'a heap_op = Add 'a | Poll

fun run_ops :: "'a Comparator \<Rightarrow> 'a list \<Rightarrow> 'a heap_op list \<Rightarrow> error + ('a list \<times> 'a list)" where
  "run_ops cmp h [] = Inr ([], h)"
| "run_ops cmp h (Add x # ops) =
     (case heap_add cmp h x of
        Inl e \<Rightarrow> Inl e
      | Inr h' \<Rightarrow> run_ops cmp h' ops)"
| "run_ops cmp h (Poll # ops) =
     (case heap_poll cmp h of
        Inl e \<Rightarrow> Inl e
      | Inr (x, h') \<Rightarrow>
          (case run_ops cmp h' ops of
             Inl e \<Rightarrow> Inl e
           | Inr (xs, h'') \<Rightarrow> Inr (x # xs, h'')))"

section \<open>BinarySearchTree\<close>

text \<open>
  \<^verbatim>\<open>class BinarySearchNode<T> { value: T; left: Maybe<BinarySearchNode<T>>; right: ... }\<close>,
  with \<^verbatim>\<open>Maybe<X> = X | null\<close> as \<open>X option\<close>.
\<close>

datatype 'a BinarySearchNode =
  BinarySearchNode (val: 'a) (left: "'a BinarySearchNode option") (right: "'a BinarySearchNode option")

text \<open>The instance state: \<^verbatim>\<open>_root\<close> and \<^verbatim>\<open>_size\<close> (a JavaScript number, decremented by \<^verbatim>\<open>remove\<close>).\<close>

record 'a BinarySearchTree =
  bst_root :: "'a BinarySearchNode option"
  bst_size :: int

definition bst_empty :: "'a BinarySearchTree" where
  "bst_empty = \<lparr>bst_root = None, bst_size = 0\<rparr>"

text \<open>
  The root of the model is the tree of nodes as it unfolds from \<^verbatim>\<open>_root\<close>. A reference to
  a node that hangs in the tree is the path leading to it from the root, together with the
  node as it is when the reference is taken. The tree built by \<^verbatim>\<open>add\<close> shares no node,
  so paths and references correspond one to one. \<open>assign\<close> is the field write
  \<^verbatim>\<open>node[side] = x\<close> and \<open>set_value\<close> the write \<^verbatim>\<open>node.value = w\<close>, each on the node
  a path denotes (a path that leaves the tree denotes no node and the write changes nothing;
  \<^verbatim>\<open>remove\<close> produces no such path). The structural write of \<^verbatim>\<open>remove\<close> is its last
  one; where it makes two fields refer to one node, the unfolded tree holds that node under
  both, which is all that \<^verbatim>\<open>find\<close> and the iterators, which only read, can observe.
\<close>

datatype side = Left | Right

type_synonym path = "side list"

type_synonym 'a node_ref = "path \<times> 'a BinarySearchNode"

fun assign :: "'a BinarySearchNode option \<Rightarrow> path \<Rightarrow> side \<Rightarrow> 'a BinarySearchNode option \<Rightarrow>
    'a BinarySearchNode option" where
  "assign None p s x = None"
| "assign (Some (BinarySearchNode v l r)) [] Left x = Some (BinarySearchNode v x r)"
| "assign (Some (BinarySearchNode v l r)) [] Right x = Some (BinarySearchNode v l x)"
| "assign (Some (BinarySearchNode v l r)) (Left # p) s x = Some (BinarySearchNode v (assign l p s x) r)"
| "assign (Some (BinarySearchNode v l r)) (Right # p) s x = Some (BinarySearchNode v l (assign r p s x))"

fun set_value :: "'a BinarySearchNode option \<Rightarrow> path \<Rightarrow> 'a \<Rightarrow> 'a BinarySearchNode option" where
  "set_value None p w = None"
| "set_value (Some (BinarySearchNode v l r)) [] w = Some (BinarySearchNode w l r)"
| "set_value (Some (BinarySearchNode v l r)) (Left # p) w = Some (BinarySearchNode v (set_value l p w) r)"
| "set_value (Some (BinarySearchNode v l r)) (Right # p) w = Some (BinarySearchNode v l (set_value r p w))"

text \<open>
  \<^verbatim>\<open>addUnderSubtree\<close> returns the node it created (or null) and has updated the subtree
  of \<open>root\<close> in place; the model returns both.
\<close>

fun addUnderSubtree :: "'a Comparator \<Rightarrow> 'a \<Rightarrow> 'a BinarySearchNode \<Rightarrow>
    'a BinarySearchNode option \<times> 'a BinarySearchNode" where
  "addUnderSubtree cmp element (BinarySearchNode v l r) =
     (let compareResult = cmp element v in
      if compareResult = 1 then
        (case r of
           Some rn \<Rightarrow> (case addUnderSubtree cmp element rn of
                         (added, rn') \<Rightarrow> (added, BinarySearchNode v l (Some rn')))
         | None \<Rightarrow> (let new = BinarySearchNode element None None
                    in (Some new, BinarySearchNode v l (Some new))))
      else if compareResult = -1 then
        (case l of
           Some ln \<Rightarrow> (case addUnderSubtree cmp element ln of
                         (added, ln') \<Rightarrow> (added, BinarySearchNode v (Some ln') r))
         | None \<Rightarrow> (let new = BinarySearchNode element None None
                    in (Some new, BinarySearchNode v (Some new) r)))
      else (None, BinarySearchNode v l r))"

definition bst_add :: "'a Comparator \<Rightarrow> 'a \<Rightarrow> 'a BinarySearchTree \<Rightarrow> 'a BinarySearchTree" where
  "bst_add cmp element t =
     (case bst_root t of
        None \<Rightarrow> t\<lparr>bst_root := Some (BinarySearchNode element None None), bst_size := bst_size t + 1\<rparr>
      | Some rt \<Rightarrow>
          (case addUnderSubtree cmp element rt of
             (added, rt') \<Rightarrow>
               if added \<noteq> None then t\<lparr>bst_root := Some rt', bst_size := bst_size t + 1\<rparr>
               else t\<lparr>bst_root := Some rt'\<rparr>))"

text \<open>The constructor: \<^verbatim>\<open>for (const el of elements) this.add(el)\<close>.\<close>

definition bst_constructor :: "'a Comparator \<Rightarrow> 'a list \<Rightarrow> 'a BinarySearchTree" where
  "bst_constructor cmp elements = foldl (\<lambda>t el. bst_add cmp el t) bst_empty elements"

text \<open>
  \<^verbatim>\<open>findUnderSubtree(element, root, parent)\<close>: \<open>root\<close> is passed with its path \<open>at\<close>;
  the result is the pair \<^verbatim>\<open>{ node, parent }\<close>. The source's second and third \<^verbatim>\<open>if\<close>
  exclude each other, so they are an \<open>else if\<close> chain here; each falls through to
  \<^verbatim>\<open>{ node: null, parent: null }\<close> when the child is missing.
\<close>

fun findUnderSubtree :: "'a Comparator \<Rightarrow> 'a \<Rightarrow> 'a BinarySearchNode \<Rightarrow> path \<Rightarrow> 'a node_ref option \<Rightarrow>
    'a node_ref option \<times> 'a node_ref option" where
  "findUnderSubtree cmp element (BinarySearchNode v l r) at parent =
     (let root = BinarySearchNode v l r;
          compareResult = cmp element v in
      if compareResult = 0 then (Some (at, root), parent)
      else if compareResult = 1 then
        (case r of
           Some rn \<Rightarrow> findUnderSubtree cmp element rn (at @ [Right]) (Some (at, root))
         | None \<Rightarrow> (None, None))
      else if compareResult = -1 then
        (case l of
           Some ln \<Rightarrow> findUnderSubtree cmp element ln (at @ [Left]) (Some (at, root))
         | None \<Rightarrow> (None, None))
      else (None, None))"

definition bst_find :: "'a Comparator \<Rightarrow> 'a \<Rightarrow> 'a BinarySearchTree \<Rightarrow> 'a BinarySearchNode option" where
  "bst_find cmp element t =
     (case bst_root t of
        None \<Rightarrow> None
      | Some rt \<Rightarrow>
          (case findUnderSubtree cmp element rt [] None of
             (node, _) \<Rightarrow> map_option snd node))"

text \<open>
  \<^verbatim>\<open>findMinInTree(root, parent)\<close>. The loop body is
  \<^verbatim>\<open>root = root.left; parent = root;\<close> in this order, so after it both variables refer
  to the same node: the former left child.
\<close>

fun findMinInTree :: "'a BinarySearchNode \<Rightarrow> path \<Rightarrow> 'a node_ref \<Rightarrow> 'a node_ref \<times> 'a node_ref" where
  "findMinInTree (BinarySearchNode v l r) at parent =
     (case l of
        Some ln \<Rightarrow> findMinInTree ln (at @ [Left]) (at @ [Left], ln)
      | None \<Rightarrow> ((at, BinarySearchNode v l r), parent))"

definition isLeaf :: "'a BinarySearchNode \<Rightarrow> bool" where
  "isLeaf node = (left node = None \<and> right node = None)"

text \<open>
  \<^verbatim>\<open>if (parent) { parent[parentSide] = x } else { this._root = x }\<close>, the write shared by
  the cases 2a, 2b and 2c of \<^verbatim>\<open>remove\<close>.
\<close>

definition replace_in_parent :: "'a BinarySearchNode option \<Rightarrow> 'a node_ref option \<Rightarrow> side \<Rightarrow>
    'a BinarySearchNode option \<Rightarrow> 'a BinarySearchNode option" where
  "replace_in_parent rt parent parentSide x =
     (case parent of Some p \<Rightarrow> assign rt (fst p) parentSide x | None \<Rightarrow> x)"

text \<open>
  \<^verbatim>\<open>remove\<close> returns what it returns or throws, together with the tree it leaves behind.
  The four \<^verbatim>\<open>if\<close> statements 2a to 2d run one after the other, as in the source; their
  conditions read the fields \<^verbatim>\<open>left\<close> and \<^verbatim>\<open>right\<close> of \<open>toRemove\<close>, which none of
  them writes before the last statement of 2d. \<^verbatim>\<open>successor === toRemove.right\<close> compares
  references, here paths.
\<close>

definition bst_remove :: "'a Comparator \<Rightarrow> 'a \<Rightarrow> 'a BinarySearchTree \<Rightarrow>
    (error + 'a) \<times> 'a BinarySearchTree" where
  "bst_remove cmp element t =
     (case bst_root t of
        None \<Rightarrow> (Inl (RangeError ''Element not found''), t)
      | Some rt \<Rightarrow>
          (case findUnderSubtree cmp element rt [] None of
             (None, _) \<Rightarrow> (Inl (RangeError ''Element not found''), t)
           | (Some (at, toRemove), parent) \<Rightarrow>
               let parentSide =
                     (case parent of
                        None \<Rightarrow> Right
                      | Some p \<Rightarrow>
                          (case left (snd p) of
                             None \<Rightarrow> Right
                           | Some pl \<Rightarrow> if cmp (val toRemove) (val pl) = 0 then Left else Right));
                   root1 = (if isLeaf toRemove
                            then replace_in_parent (bst_root t) parent parentSide None
                            else bst_root t);
                   root2 = (if right toRemove \<noteq> None \<and> left toRemove = None
                            then replace_in_parent root1 parent parentSide (right toRemove)
                            else root1);
                   root3 = (if left toRemove \<noteq> None \<and> right toRemove = None
                            then replace_in_parent root2 parent parentSide (left toRemove)
                            else root2);
                   root4 = (case (left toRemove, right toRemove) of
                              (Some ln, Some rn) \<Rightarrow>
                                (case findMinInTree rn (at @ [Right]) (at, toRemove) of
                                   (successor, successorParent) \<Rightarrow>
                                     let written = set_value root3 at (val (snd successor))
                                     in if fst successor = at @ [Right]
                                        then assign written at Right (right (snd successor))
                                        else assign written (fst successorParent) Left
                                               (right (snd successor)))
                            | _ \<Rightarrow> root3)
               in (Inr element, \<lparr>bst_root = root4, bst_size = bst_size t - 1\<rparr>)))"

subsection \<open>Traversal iterators\<close>

text \<open>
  \<^verbatim>\<open>Stack\<close> and \<^verbatim>\<open>Queue\<close> are the library's wrappers of its doubly linked list:
  \<^verbatim>\<open>push\<close> and \<^verbatim>\<open>pop\<close> work at the same end, \<^verbatim>\<open>enqueue\<close> and \<^verbatim>\<open>dequeue\<close> at
  opposite ends, and \<^verbatim>\<open>pop\<close> and \<^verbatim>\<open>dequeue\<close> throw on an empty container. A stack is a
  list with its top first, a queue a list with its front first.
\<close>

definition push :: "'a \<Rightarrow> 'a list \<Rightarrow> 'a list" where
  "push x stack = x # stack"

definition pop :: "'a list \<Rightarrow> error + ('a \<times> 'a list)" where
  "pop stack = (case stack of [] \<Rightarrow> Inl (RangeError ''Stack is empty'') | x # rest \<Rightarrow> Inr (x, rest))"

definition enqueue :: "'a \<Rightarrow> 'a list \<Rightarrow> 'a list" where
  "enqueue x queue = queue @ [x]"

definition dequeue :: "'a list \<Rightarrow> error + ('a \<times> 'a list)" where
  "dequeue queue = (case queue of [] \<Rightarrow> Inl (RangeError ''Queue is empty'') | x # rest \<Rightarrow> Inr (x, rest))"

text \<open>The number of nodes below a reference: the measure by which the iterators end.\<close>

fun count_nodes :: "'a BinarySearchNode \<Rightarrow> nat" where
  "count_nodes (BinarySearchNode v l r) =
     Suc ((case l of None \<Rightarrow> 0 | Some ln \<Rightarrow> count_nodes ln) +
          (case r of None \<Rightarrow> 0 | Some rn \<Rightarrow> count_nodes rn))"

definition count_opt :: "'a BinarySearchNode option \<Rightarrow> nat" where
  "count_opt t = (case t of None \<Rightarrow> 0 | Some n \<Rightarrow> count_nodes n)"

lemma count_nodes_fields: "count_nodes node = Suc (count_opt (left node) + count_opt (right node))"
  by (cases node) (simp add: count_opt_def)

lemma count_opt_simps: "count_opt None = 0" "count_opt (Some n) = count_nodes n"
  by (simp_all add: count_opt_def)

text \<open>
  Each iterator closes over the tree (its \<^verbatim>\<open>isDone\<close> reads \<^verbatim>\<open>tree._root\<close>) and owns a
  stack or queue. \<open>..._init\<close> is the constructor, \<open>..._next\<close> one call of \<^verbatim>\<open>next()\<close>,
  returning \<open>None\<close> for \<^verbatim>\<open>done: true\<close>, and \<open>traverse...\<close> is what exhausting a fresh
  iterator (\<^verbatim>\<open>[...tree.traversePreOrder()]\<close>) collects.
\<close>

definition preOrder_init :: "'a BinarySearchTree \<Rightarrow> 'a BinarySearchNode list" where
  "preOrder_init tree = (case bst_root tree of Some rt \<Rightarrow> push rt [] | None \<Rightarrow> [])"

definition preOrder_next :: "'a BinarySearchTree \<Rightarrow> 'a BinarySearchNode list \<Rightarrow>
    error + ('a option \<times> 'a BinarySearchNode list)" where
  "preOrder_next tree stack =
     (if bst_root tree = None \<or> stack = [] then Inr (None, stack)
      else case pop stack of
             Inl e \<Rightarrow> Inl e
           | Inr (node, stack1) \<Rightarrow>
               let stack2 = (case right node of Some rn \<Rightarrow> push rn stack1 | None \<Rightarrow> stack1);
                   stack3 = (case left node of Some ln \<Rightarrow> push ln stack2 | None \<Rightarrow> stack2)
               in Inr (Some (val node), stack3))"

lemma preOrder_next_decreases:
  assumes "preOrder_next tree stack = Inr (Some v, stack')"
  shows "sum_list (map count_nodes stack') < sum_list (map count_nodes stack)"
proof (cases stack)
  case Nil
  then show ?thesis using assms by (simp add: preOrder_next_def)
next
  case (Cons node rest)
  then show ?thesis
    using assms count_nodes_fields[of node]
    by (auto simp: preOrder_next_def pop_def push_def Let_def count_opt_simps
             split: if_splits option.splits)
qed

function preOrder_drain :: "'a BinarySearchTree \<Rightarrow> 'a BinarySearchNode list \<Rightarrow> error + 'a list" where
  "preOrder_drain tree stack =
     (case preOrder_next tree stack of
        Inl e \<Rightarrow> Inl e
      | Inr (None, _) \<Rightarrow> Inr []
      | Inr (Some v, stack') \<Rightarrow>
          (case preOrder_drain tree stack' of Inl e \<Rightarrow> Inl e | Inr vs \<Rightarrow> Inr (v # vs)))"
  by pat_completeness auto
termination
  by (relation "measure (\<lambda>(tree, stack). sum_list (map count_nodes stack))")
     (auto dest: preOrder_next_decreases)

definition traversePreOrder :: "'a BinarySearchTree \<Rightarrow> error + 'a list" where
  "traversePreOrder tree = preOrder_drain tree (preOrder_init tree)"

text \<open>In-order: the state is the stack and the cursor \<^verbatim>\<open>trav\<close>.\<close>

fun dig_left :: "'a BinarySearchNode list \<Rightarrow> 'a BinarySearchNode option \<Rightarrow>
    'a BinarySearchNode list \<times> 'a BinarySearchNode option" where
  "dig_left stack None = (stack, None)"
| "dig_left stack (Some (BinarySearchNode v l r)) =
     (case l of
        None \<Rightarrow> (stack, Some (BinarySearchNode v l r))
      | Some ln \<Rightarrow> dig_left (push ln stack) (Some ln))"

definition inOrder_init :: "'a BinarySearchTree \<Rightarrow> 'a BinarySearchNode list \<times> 'a BinarySearchNode option" where
  "inOrder_init tree = ((case bst_root tree of Some rt \<Rightarrow> push rt [] | None \<Rightarrow> []), bst_root tree)"

definition inOrder_next :: "'a BinarySearchTree \<Rightarrow> 'a BinarySearchNode list \<times> 'a BinarySearchNode option \<Rightarrow>
    error + ('a option \<times> ('a BinarySearchNode list \<times> 'a BinarySearchNode option))" where
  "inOrder_next tree st =
     (case st of (stack, trav) \<Rightarrow>
        if bst_root tree = None \<or> stack = [] then Inr (None, st)
        else case dig_left stack trav of (stack1, trav1) \<Rightarrow>
          (case pop stack1 of
             Inl e \<Rightarrow> Inl e
           | Inr (node, stack2) \<Rightarrow>
               (case right node of
                  Some rn \<Rightarrow> Inr (Some (val node), (push rn stack2, Some rn))
                | None \<Rightarrow> Inr (Some (val node), (stack2, trav1)))))"

definition inOrder_measure :: "'a BinarySearchNode list \<times> 'a BinarySearchNode option \<Rightarrow> nat" where
  "inOrder_measure st =
     (case st of (stack, trav) \<Rightarrow>
        sum_list (map (\<lambda>n. Suc (count_opt (right n))) stack) +
        (case trav of None \<Rightarrow> 0 | Some t \<Rightarrow> count_opt (left t)))"

lemma dig_left_measure:
  "dig_left stack trav = (stack1, trav1) \<Longrightarrow>
   inOrder_measure (stack1, trav1) = inOrder_measure (stack, trav) \<and>
   (case trav1 of None \<Rightarrow> True | Some t \<Rightarrow> left t = None)"
proof (induction stack trav arbitrary: stack1 trav1 rule: dig_left.induct)
  case (1 stack)
  then show ?case by simp
next
  case (2 stack v l r)
  show ?case
  proof (cases l)
    case None
    with 2(2) show ?thesis by auto
  next
    case (Some ln)
    with 2(2) have "dig_left (push ln stack) (Some ln) = (stack1, trav1)" by simp
    from 2(1)[OF Some this] show ?thesis
      using Some count_nodes_fields[of ln]
      by (simp add: inOrder_measure_def push_def count_opt_simps)
  qed
qed

lemma inOrder_next_decreases:
  assumes "inOrder_next tree st = Inr (Some v, st')"
  shows "inOrder_measure st' < inOrder_measure st"
proof -
  obtain stack trav where st: "st = (stack, trav)" by (cases st)
  obtain stack1 trav1 where d: "dig_left stack trav = (stack1, trav1)" by (cases "dig_left stack trav")
  from dig_left_measure[OF d] have m: "inOrder_measure (stack1, trav1) = inOrder_measure (stack, trav)"
    and t: "case trav1 of None \<Rightarrow> True | Some t \<Rightarrow> left t = None" by auto
  show ?thesis
  proof (cases stack1)
    case Nil
    then show ?thesis using assms st d by (auto simp: inOrder_next_def pop_def split: if_splits)
  next
    case (Cons node rest)
    then show ?thesis
      using assms st d m t count_nodes_fields[of "the (right node)"]
      by (auto simp: inOrder_next_def pop_def push_def inOrder_measure_def count_opt_simps
               split: if_splits option.splits)
  qed
qed

function inOrder_drain :: "'a BinarySearchTree \<Rightarrow> 'a BinarySearchNode list \<times> 'a BinarySearchNode option \<Rightarrow>
    error + 'a list" where
  "inOrder_drain tree st =
     (case inOrder_next tree st of
        Inl e \<Rightarrow> Inl e
      | Inr (None, _) \<Rightarrow> Inr []
      | Inr (Some v, st') \<Rightarrow>
          (case inOrder_drain tree st' of Inl e \<Rightarrow> Inl e | Inr vs \<Rightarrow> Inr (v # vs)))"
  by pat_completeness auto
termination
  by (relation "measure (\<lambda>(tree, st). inOrder_measure st)")
     (auto dest: inOrder_next_decreases)

definition traverseInOrder :: "'a BinarySearchTree \<Rightarrow> error + 'a list" where
  "traverseInOrder tree = inOrder_drain tree (inOrder_init tree)"

lemma count_nodes_children:
  "0 < count_nodes node"
  "left node = Some ln \<Longrightarrow> right node = None \<Longrightarrow> count_nodes ln < count_nodes node"
  "left node = None \<Longrightarrow> right node = Some rn \<Longrightarrow> count_nodes rn < count_nodes node"
  "left node = Some ln \<Longrightarrow> right node = Some rn \<Longrightarrow> count_nodes ln + count_nodes rn < count_nodes node"
  using count_nodes_fields[of node] by (simp_all add: count_opt_simps)

text \<open>
  Post-order: the constructor empties \<^verbatim>\<open>stack1\<close> into \<^verbatim>\<open>stack2\<close>; \<^verbatim>\<open>next()\<close> pops
  \<^verbatim>\<open>stack2\<close>.
\<close>

function postOrder_fill :: "'a BinarySearchNode list \<Rightarrow> 'a BinarySearchNode list \<Rightarrow>
    error + 'a BinarySearchNode list" where
  "postOrder_fill stack1 stack2 =
     (if stack1 = [] then Inr stack2
      else case pop stack1 of
             Inl e \<Rightarrow> Inl e
           | Inr (node, rest) \<Rightarrow>
               let stack2' = push node stack2;
                   rest1 = (case left node of Some ln \<Rightarrow> push ln rest | None \<Rightarrow> rest);
                   rest2 = (case right node of Some rn \<Rightarrow> push rn rest1 | None \<Rightarrow> rest1)
               in postOrder_fill rest2 stack2')"
  by pat_completeness auto
termination
  by (relation "measure (\<lambda>(stack1, stack2). sum_list (map count_nodes stack1))")
     (auto simp: pop_def push_def count_nodes_children add.commute split: list.splits option.splits)

definition postOrder_init :: "'a BinarySearchTree \<Rightarrow> error + 'a BinarySearchNode list" where
  "postOrder_init tree =
     postOrder_fill (case bst_root tree of Some rt \<Rightarrow> push rt [] | None \<Rightarrow> []) []"

definition postOrder_next :: "'a BinarySearchTree \<Rightarrow> 'a BinarySearchNode list \<Rightarrow>
    error + ('a option \<times> 'a BinarySearchNode list)" where
  "postOrder_next tree stack2 =
     (if bst_root tree = None \<or> stack2 = [] then Inr (None, stack2)
      else case pop stack2 of
             Inl e \<Rightarrow> Inl e
           | Inr (node, rest) \<Rightarrow> Inr (Some (val node), rest))"

function postOrder_drain :: "'a BinarySearchTree \<Rightarrow> 'a BinarySearchNode list \<Rightarrow> error + 'a list" where
  "postOrder_drain tree stack2 =
     (case postOrder_next tree stack2 of
        Inl e \<Rightarrow> Inl e
      | Inr (None, _) \<Rightarrow> Inr []
      | Inr (Some v, stack2') \<Rightarrow>
          (case postOrder_drain tree stack2' of Inl e \<Rightarrow> Inl e | Inr vs \<Rightarrow> Inr (v # vs)))"
  by pat_completeness auto
termination
  by (relation "measure (\<lambda>(tree, stack2). length stack2)")
     (auto simp: postOrder_next_def pop_def split: if_splits list.splits)

definition traversePostOrder :: "'a BinarySearchTree \<Rightarrow> error + 'a list" where
  "traversePostOrder tree =
     (case postOrder_init tree of
        Inl e \<Rightarrow> Inl e
      | Inr stack2 \<Rightarrow> postOrder_drain tree stack2)"

text \<open>Level-order: a queue seeded with the root.\<close>

definition levelOrder_init :: "'a BinarySearchTree \<Rightarrow> 'a BinarySearchNode list" where
  "levelOrder_init tree = (case bst_root tree of Some rt \<Rightarrow> enqueue rt [] | None \<Rightarrow> [])"

definition levelOrder_next :: "'a BinarySearchTree \<Rightarrow> 'a BinarySearchNode list \<Rightarrow>
    error + ('a option \<times> 'a BinarySearchNode list)" where
  "levelOrder_next tree queue =
     (if bst_root tree = None \<or> queue = [] then Inr (None, queue)
      else case dequeue queue of
             Inl e \<Rightarrow> Inl e
           | Inr (node, queue1) \<Rightarrow>
               let queue2 = (case left node of Some ln \<Rightarrow> enqueue ln queue1 | None \<Rightarrow> queue1);
                   queue3 = (case right node of Some rn \<Rightarrow> enqueue rn queue2 | None \<Rightarrow> queue2)
               in Inr (Some (val node), queue3))"

lemma levelOrder_next_decreases:
  assumes "levelOrder_next tree queue = Inr (Some v, queue')"
  shows "sum_list (map count_nodes queue') < sum_list (map count_nodes queue)"
proof (cases queue)
  case Nil
  then show ?thesis using assms by (simp add: levelOrder_next_def)
next
  case (Cons node rest)
  then show ?thesis
    using assms count_nodes_fields[of node]
    by (auto simp: levelOrder_next_def dequeue_def enqueue_def Let_def count_opt_simps
             split: if_splits option.splits)
qed

function levelOrder_drain :: "'a BinarySearchTree \<Rightarrow> 'a BinarySearchNode list \<Rightarrow> error + 'a list" where
  "levelOrder_drain tree queue =
     (case levelOrder_next tree queue of
        Inl e \<Rightarrow> Inl e
      | Inr (None, _) \<Rightarrow> Inr []
      | Inr (Some v, queue') \<Rightarrow>
          (case levelOrder_drain tree queue' of Inl e \<Rightarrow> Inl e | Inr vs \<Rightarrow> Inr (v # vs)))"
  by pat_completeness auto
termination
  by (relation "measure (\<lambda>(tree, queue). sum_list (map count_nodes queue))")
     (auto dest: levelOrder_next_decreases)

definition traverseLevelOrder :: "'a BinarySearchTree \<Rightarrow> error + 'a list" where
  "traverseLevelOrder tree = levelOrder_drain tree (levelOrder_init tree)"

section \<open>Heap invariants\<close>

declare heapifyUp_loop.simps [simp del]
declare heapifyDown_loop.simps [simp del]

text \<open>One round of the sift-down loop.\<close>

definition down_violation :: "'a Comparator \<Rightarrow> 'a list \<Rightarrow> 'a \<Rightarrow> nat \<Rightarrow> bool" where
  "down_violation cmp h current i \<longleftrightarrow>
     (2 * i + 1 < length h \<and> \<not> heapPropertyHolds cmp current (h ! (2 * i + 1))) \<or>
     (2 * i + 2 < length h \<and> \<not> heapPropertyHolds cmp current (h ! (2 * i + 2)))"

definition down_target :: "'a Comparator \<Rightarrow> 'a list \<Rightarrow> nat \<Rightarrow> nat" where
  "down_target cmp h i =
     (if 2 * i + 2 < length h \<and> \<not> heapPropertyHolds cmp (h ! (2 * i + 1)) (h ! (2 * i + 2))
      then 2 * i + 2 else 2 * i + 1)"

text \<open>The parent of a cell other than the root, as \<^verbatim>\<open>parentIndexOf\<close> computes it for both parities.\<close>

definition parent_of :: "nat \<Rightarrow> nat" where
  "parent_of c = (c - 1) div 2"

definition is_child :: "nat \<Rightarrow> nat \<Rightarrow> bool" where
  "is_child p c \<longleftrightarrow> c = 2 * p + 1 \<or> c = 2 * p + 2"

definition heap_from :: "'a Comparator \<Rightarrow> 'a list \<Rightarrow> nat \<Rightarrow> bool" where
  "heap_from cmp h m \<longleftrightarrow>
     (\<forall>p c. m \<le> p \<and> is_child p c \<and> c < length h \<longrightarrow> heapPropertyHolds cmp (h ! p) (h ! c))"

definition except_down :: "'a Comparator \<Rightarrow> 'a list \<Rightarrow> nat \<Rightarrow> nat \<Rightarrow> bool" where
  "except_down cmp h m i \<longleftrightarrow>
     (\<forall>p c. m \<le> p \<and> p \<noteq> i \<and> is_child p c \<and> c < length h \<longrightarrow> heapPropertyHolds cmp (h ! p) (h ! c)) \<and>
     (\<forall>g c. m \<le> g \<and> is_child g i \<and> is_child i c \<and> c < length h \<longrightarrow> heapPropertyHolds cmp (h ! g) (h ! c))"

definition except_up :: "'a Comparator \<Rightarrow> 'a list \<Rightarrow> nat \<Rightarrow> bool" where
  "except_up cmp h i \<longleftrightarrow>
     (\<forall>p c. is_child p c \<and> c < length h \<and> c \<noteq> i \<longrightarrow> heapPropertyHolds cmp (h ! p) (h ! c)) \<and>
     (\<forall>g c. is_child g i \<and> is_child i c \<and> c < length h \<longrightarrow> heapPropertyHolds cmp (h ! g) (h ! c))"

definition except_at :: "'a Comparator \<Rightarrow> 'a list \<Rightarrow> nat \<Rightarrow> bool" where
  "except_at cmp h i \<longleftrightarrow>
     (\<forall>p c. is_child p c \<and> c < length h \<and> c \<noteq> i \<and> p \<noteq> i \<longrightarrow> heapPropertyHolds cmp (h ! p) (h ! c)) \<and>
     (\<forall>g c. is_child g i \<and> is_child i c \<and> c < length h \<longrightarrow> heapPropertyHolds cmp (h ! g) (h ! c))"

definition heap_ok :: "'a Comparator \<Rightarrow> 'a list \<Rightarrow> bool" where
  "heap_ok cmp h =
     list_all (\<lambda>parent. let (l, r) = childrenIndexesOf parent
                         in (l < length h \<longrightarrow> heapPropertyHolds cmp (h ! parent) (h ! l)) \<and>
                            (r < length h \<longrightarrow> heapPropertyHolds cmp (h ! parent) (h ! r)))
       [0..<length h]"

subsection \<open>What the tree holds\<close>

text \<open>The values of a subtree from left to right, and the ordering invariant of the class.\<close>

fun inorder :: "'a BinarySearchNode \<Rightarrow> 'a list" where
  "inorder (BinarySearchNode v l r) =
     (case l of None \<Rightarrow> [] | Some ln \<Rightarrow> inorder ln) @ v #
     (case r of None \<Rightarrow> [] | Some rn \<Rightarrow> inorder rn)"

definition inorder_opt :: "'a BinarySearchNode option \<Rightarrow> 'a list" where
  "inorder_opt t = (case t of None \<Rightarrow> [] | Some n \<Rightarrow> inorder n)"

fun is_bst :: "'a Comparator \<Rightarrow> 'a BinarySearchNode \<Rightarrow> bool" where
  "is_bst cmp (BinarySearchNode v l r) =
     ((case l of None \<Rightarrow> True
       | Some ln \<Rightarrow> is_bst cmp ln \<and> list_all (\<lambda>y. cmp y v = -1) (inorder ln)) \<and>
      (case r of None \<Rightarrow> True
       | Some rn \<Rightarrow> is_bst cmp rn \<and> list_all (\<lambda>y. cmp y v = 1) (inorder rn)))"

definition is_bst_opt :: "'a Comparator \<Rightarrow> 'a BinarySearchNode option \<Rightarrow> bool" where
  "is_bst_opt cmp t = (case t of None \<Rightarrow> True | Some n \<Rightarrow> is_bst cmp n)"

text \<open>
  The distinct values of a sequence of insertions: a value counts when no value kept
  before it compares equal to it.
\<close>

definition has_equal :: "'a Comparator \<Rightarrow> 'a \<Rightarrow> 'a list \<Rightarrow> bool" where
  "has_equal cmp x ys = list_ex (\<lambda>y. cmp x y = 0) ys"

definition distinct_values :: "'a Comparator \<Rightarrow> 'a list \<Rightarrow> 'a list" where
  "distinct_values cmp xs =
     foldl (\<lambda>kept x. if has_equal cmp x kept then kept else kept @ [x]) [] xs"

text \<open>
  What the in-order iterator has still to produce: the nodes its cursor will push (the left
  descendants of \<open>trav\<close>), then the stack; each node stands for its value and its right
  subtree.
\<close>

fun spine :: "'a BinarySearchNode \<Rightarrow> 'a BinarySearchNode list" where
  "spine (BinarySearchNode v l r) = (case l of None \<Rightarrow> [] | Some ln \<Rightarrow> spine ln @ [ln])"

fun deepest :: "'a BinarySearchNode \<Rightarrow> 'a BinarySearchNode" where
  "deepest (BinarySearchNode v l r) =
     (case l of None \<Rightarrow> BinarySearchNode v l r | Some ln \<Rightarrow> deepest ln)"

fun pending :: "'a BinarySearchNode list \<Rightarrow> 'a list" where
  "pending [] = []"
| "pending (n # ns) = val n # inorder_opt (right n) @ pending ns"

definition spine_opt :: "'a BinarySearchNode option \<Rightarrow> 'a BinarySearchNode list" where
  "spine_opt trav = (case trav of None \<Rightarrow> [] | Some t \<Rightarrow> spine t)"

definition deepest_opt :: "'a BinarySearchNode option \<Rightarrow> 'a BinarySearchNode option" where
  "deepest_opt trav = map_option deepest trav"

text \<open>The node a path leads to, if any.\<close>

fun deref :: "'a BinarySearchNode option \<Rightarrow> path \<Rightarrow> 'a BinarySearchNode option" where
  "deref t [] = t"
| "deref None (s # p) = None"
| "deref (Some n) (Left # p) = deref (left n) p"
| "deref (Some n) (Right # p) = deref (right n) p"

section \<open>BinaryHeap: proofs\<close>

lemma arr_get_nat: "arr_get h (int k) = (if k < length h then Some (h ! k) else None)"
  by (simp add: arr_get_def)

lemma parent_of_less: "0 < c \<Longrightarrow> parent_of c < c"
  unfolding parent_of_def by arith

lemma parentIndexOf_pos: "0 < i \<Longrightarrow> parentIndexOf i = int (parent_of i)"
  by (auto simp: parentIndexOf_def parent_of_def Let_def)

lemma parentIndexOf_zero: "parentIndexOf 0 = -1"
  by (simp add: parentIndexOf_def)

lemma arr_get_parent:
  "i < length h \<Longrightarrow> arr_get h (parentIndexOf i) = (if i = 0 then None else Some (h ! (parent_of i)))"
proof (cases "i = 0")
  case True
  then show ?thesis by (simp add: parentIndexOf_zero arr_get_def)
next
  case False
  assume "i < length h"
  then have "parent_of i < length h" using parent_of_less[of i] False by simp
  then show ?thesis using False by (simp add: parentIndexOf_pos arr_get_nat)
qed

text \<open>One round of the sift-up loop, by cases on the parent cell.\<close>

lemma heapifyUp_loop_root: "heapifyUp_loop cmp h current 0 = (0, h)"
  by (simp add: heapifyUp_loop.simps[of cmp h current 0] parentIndexOf_zero arr_get_def)

lemma heapifyUp_loop_stay:
  "0 < ci \<Longrightarrow> ci < length h \<Longrightarrow> heapPropertyHolds cmp (h ! (parent_of ci)) current \<Longrightarrow>
   heapifyUp_loop cmp h current ci = (ci, h)"
  by (simp add: heapifyUp_loop.simps[of cmp h current ci] arr_get_parent)

lemma heapifyUp_loop_move:
  "0 < ci \<Longrightarrow> ci < length h \<Longrightarrow> \<not> heapPropertyHolds cmp (h ! (parent_of ci)) current \<Longrightarrow>
   heapifyUp_loop cmp h current ci =
   heapifyUp_loop cmp ((h[parent_of ci := current])[ci := h ! (parent_of ci)]) current (parent_of ci)"
proof -
  assume a: "0 < ci" "ci < length h" "\<not> heapPropertyHolds cmp (h ! (parent_of ci)) current"
  have "parent_of ci < length h" using parent_of_less[OF a(1)] a(2) by simp
  then show ?thesis
    using a by (simp add: heapifyUp_loop.simps[of cmp h current ci] parentIndexOf_pos arr_get_nat Let_def)
qed

lemma heapifyUp_loop_induct [consumes 1, case_names root stay move]:
  assumes "ci < length h"
    and "\<And>h. P h 0"
    and "\<And>h ci. 0 < ci \<Longrightarrow> ci < length h \<Longrightarrow> heapPropertyHolds cmp (h ! (parent_of ci)) current \<Longrightarrow> P h ci"
    and "\<And>h ci. 0 < ci \<Longrightarrow> ci < length h \<Longrightarrow> \<not> heapPropertyHolds cmp (h ! (parent_of ci)) current \<Longrightarrow>
           P ((h[parent_of ci := current])[ci := h ! (parent_of ci)]) (parent_of ci) \<Longrightarrow> P h ci"
  shows "P h ci"
  using assms(1)
proof (induction ci arbitrary: h rule: less_induct)
  case (less ci)
  show ?case
  proof (cases "ci = 0")
    case True
    then show ?thesis using assms(2) by simp
  next
    case False
    then have pos: "0 < ci" by simp
    show ?thesis
    proof (cases "heapPropertyHolds cmp (h ! (parent_of ci)) current")
      case True
      then show ?thesis using assms(3) pos less.prems by blast
    next
      case False
      have lt: "parent_of ci < ci" using pos by (rule parent_of_less)
      have "P ((h[parent_of ci := current])[ci := h ! (parent_of ci)]) (parent_of ci)"
        using less.IH[OF lt] less.prems lt by simp
      then show ?thesis using assms(4) pos less.prems False by blast
    qed
  qed
qed

lemma heapifyUp_loop_length:
  "ci < length h \<Longrightarrow> length (snd (heapifyUp_loop cmp h current ci)) = length h"
  by (induction rule: heapifyUp_loop_induct[where cmp = cmp and current = current])
     (simp_all add: heapifyUp_loop_root heapifyUp_loop_stay heapifyUp_loop_move)

lemma heapifyUp_loop_index:
  "ci < length h \<Longrightarrow> fst (heapifyUp_loop cmp h current ci) \<le> ci"
proof (induction rule: heapifyUp_loop_induct[where cmp = cmp and current = current])
  case (move h ci)
  then show ?case using parent_of_less[OF move.hyps(1)] by (simp add: heapifyUp_loop_move)
qed (simp_all add: heapifyUp_loop_root heapifyUp_loop_stay)

lemma heapifyUp_loop_mset:
  "ci < length h \<Longrightarrow> h ! ci = current \<Longrightarrow> mset (snd (heapifyUp_loop cmp h current ci)) = mset h"
proof (induction rule: heapifyUp_loop_induct[where cmp = cmp and current = current])
  case (move h ci)
  let ?p = "parent_of ci"
  have lt: "?p < ci" using move.hyps(1) by (rule parent_of_less)
  have "mset ((h[?p := current])[ci := h ! ?p]) = mset h"
    using mset_swap[of ci h ?p] lt move.hyps(2) move.prems by simp
  moreover have "((h[?p := current])[ci := h ! ?p]) ! ?p = current"
    using lt move.hyps(2) by simp
  ultimately show ?case using move by (simp add: heapifyUp_loop_move)
qed (simp_all add: heapifyUp_loop_root heapifyUp_loop_stay)


lemma down_target_range:
  "down_violation cmp h current i \<Longrightarrow> down_target cmp h i < length h \<and> i < down_target cmp h i"
  by (auto simp: down_violation_def down_target_def)

lemma heapifyDown_loop_stop:
  "\<not> down_violation cmp h current i \<Longrightarrow> heapifyDown_loop cmp h current i = (i, h)"
  by (auto simp: heapifyDown_loop.simps[of cmp h current i] down_violation_def childrenIndexesOf_def
        violates_def exists_def arr_get_nat Let_def)

lemma heapifyDown_loop_step:
  "down_violation cmp h current i \<Longrightarrow>
   heapifyDown_loop cmp h current i =
   heapifyDown_loop cmp (swap h (down_target cmp h i) i) current (down_target cmp h i)"
  by (auto simp: heapifyDown_loop.simps[of cmp h current i] down_violation_def down_target_def
        childrenIndexesOf_def violates_def exists_def arr_get_nat Let_def)

lemma length_swap: "length (swap h a b) = length h"
  by (simp add: swap_def Let_def)

lemma mset_swap_heap: "a < length h \<Longrightarrow> b < length h \<Longrightarrow> mset (swap h a b) = mset h"
  using mset_swap[of b h a] by (simp add: swap_def Let_def)

lemma nth_swap:
  "a < length h \<Longrightarrow> b < length h \<Longrightarrow>
   swap h a b ! j = (if j = b then h ! a else if j = a then h ! b else h ! j)"
  by (auto simp: swap_def Let_def)

lemma heapifyDown_loop_induct [consumes 1, case_names stop step]:
  assumes "i < length h"
    and "\<And>h i. i < length h \<Longrightarrow> \<not> down_violation cmp h current i \<Longrightarrow> P h i"
    and "\<And>h i. i < length h \<Longrightarrow> down_violation cmp h current i \<Longrightarrow>
           P (swap h (down_target cmp h i) i) (down_target cmp h i) \<Longrightarrow> P h i"
  shows "P h i"
  using assms(1)
proof (induction "length h - i" arbitrary: h i rule: less_induct)
  case less
  show ?case
  proof (cases "down_violation cmp h current i")
    case False
    then show ?thesis using assms(2) less.prems by blast
  next
    case True
    let ?k = "down_target cmp h i"
    let ?h = "swap h ?k i"
    from down_target_range[OF True] have k: "?k < length h" "i < ?k" by auto
    have "P ?h ?k"
      by (rule less.hyps) (use k less.prems in \<open>simp_all add: length_swap\<close>)
    then show ?thesis using assms(3) True less.prems by blast
  qed
qed

lemma heapifyDown_loop_length:
  "i < length h \<Longrightarrow> length (snd (heapifyDown_loop cmp h current i)) = length h"
  by (induction rule: heapifyDown_loop_induct[where cmp = cmp and current = current])
     (simp_all add: heapifyDown_loop_stop heapifyDown_loop_step length_swap)

lemma heapifyDown_loop_mset:
  "i < length h \<Longrightarrow> mset (snd (heapifyDown_loop cmp h current i)) = mset h"
proof (induction rule: heapifyDown_loop_induct[where cmp = cmp and current = current])
  case (step h i)
  then show ?case
    using down_target_range[OF step.hyps(2)]
    by (simp add: heapifyDown_loop_step mset_swap_heap)
qed (simp add: heapifyDown_loop_stop)

lemma holds_total: "consistent cmp \<Longrightarrow> \<not> heapPropertyHolds cmp a b \<Longrightarrow> heapPropertyHolds cmp b a"
proof -
  assume c: "consistent cmp" and n: "\<not> heapPropertyHolds cmp a b"
  from n have "cmp a b = -1" unfolding heapPropertyHolds_def Let_def by simp
  moreover from c have "cmp b a = - cmp a b" unfolding consistent_def by blast
  ultimately show ?thesis unfolding heapPropertyHolds_def Let_def by simp
qed

lemma holds_le: "consistent cmp \<Longrightarrow> heapPropertyHolds cmp a b \<longleftrightarrow> cmp b a \<le> 0"
proof -
  assume c: "consistent cmp"
  then have r: "cmp a b = -1 \<or> cmp a b = 0 \<or> cmp a b = 1" and f: "cmp b a = - cmp a b"
    unfolding consistent_def by blast+
  show ?thesis unfolding heapPropertyHolds_def Let_def using r f by auto
qed

lemma holds_trans:
  "consistent cmp \<Longrightarrow> heapPropertyHolds cmp a b \<Longrightarrow> heapPropertyHolds cmp b c \<Longrightarrow> heapPropertyHolds cmp a c"
proof -
  assume c: "consistent cmp" and ab: "heapPropertyHolds cmp a b" and bc: "heapPropertyHolds cmp b c"
  have "cmp c b \<le> 0" "cmp b a \<le> 0" using ab bc holds_le[OF c] by auto
  then have "cmp c a \<le> 0" using c unfolding consistent_def by blast
  then show ?thesis using holds_le[OF c] by simp
qed

lemma holds_refl: "consistent cmp \<Longrightarrow> heapPropertyHolds cmp a a"
  unfolding consistent_def heapPropertyHolds_def Let_def by simp

lemma is_child_parent: "is_child p c \<Longrightarrow> p = parent_of c \<and> 0 < c \<and> p < c"
  unfolding is_child_def parent_of_def by auto

lemma is_child_unique: "is_child p c \<Longrightarrow> is_child q c \<Longrightarrow> p = q"
  unfolding is_child_def by auto

lemma parent_is_child: "0 < c \<Longrightarrow> is_child (parent_of c) c"
  unfolding is_child_def parent_of_def by presburger

text \<open>The child chosen by the sift-down loop dominates its sibling and the sinking element.\<close>

lemma down_target_child: "is_child i (down_target cmp h i)"
  by (simp add: down_target_def is_child_def)

lemma down_target_sibling:
  assumes "consistent cmp" "is_child i c" "c < length h"
  shows "heapPropertyHolds cmp (h ! down_target cmp h i) (h ! c)"
proof -
  from assms(2) consider "c = 2 * i + 1" | "c = 2 * i + 2" unfolding is_child_def by blast
  then show ?thesis
  proof cases
    case 1
    show ?thesis
    proof (cases "2 * i + 2 < length h \<and> \<not> heapPropertyHolds cmp (h ! (2 * i + 1)) (h ! (2 * i + 2))")
      case True
      then have "down_target cmp h i = 2 * i + 2" by (simp add: down_target_def)
      then show ?thesis using 1 True holds_total[OF assms(1)] by simp
    next
      case False
      then have "down_target cmp h i = 2 * i + 1" by (simp add: down_target_def)
      then show ?thesis using 1 holds_refl[OF assms(1)] by simp
    qed
  next
    case 2
    show ?thesis
    proof (cases "heapPropertyHolds cmp (h ! (2 * i + 1)) (h ! (2 * i + 2))")
      case True
      then have "down_target cmp h i = 2 * i + 1" by (simp add: down_target_def)
      then show ?thesis using 2 True by simp
    next
      case False
      then have "down_target cmp h i = 2 * i + 2" using 2 assms(3) by (simp add: down_target_def)
      then show ?thesis using 2 holds_refl[OF assms(1)] by simp
    qed
  qed
qed

lemma down_target_current:
  assumes c: "consistent cmp" and v: "down_violation cmp h current i"
  shows "heapPropertyHolds cmp (h ! down_target cmp h i) current"
proof -
  from v obtain c' where c': "is_child i c'" "c' < length h" "\<not> heapPropertyHolds cmp current (h ! c')"
    unfolding down_violation_def is_child_def by blast
  have "heapPropertyHolds cmp (h ! c') current" using holds_total[OF c c'(3)] .
  moreover have "heapPropertyHolds cmp (h ! down_target cmp h i) (h ! c')"
    using down_target_sibling[OF c c'(1,2)] .
  ultimately show ?thesis using holds_trans[OF c] by blast
qed

lemma except_down_step:
  assumes c: "consistent cmp" and i: "i < length h" and cur: "h ! i = current"
    and inv: "except_down cmp h m i" and v: "down_violation cmp h current i" and mi: "m \<le> i"
  shows "except_down cmp (swap h (down_target cmp h i) i) m (down_target cmp h i)"
proof -
  let ?k = "down_target cmp h i"
  let ?h = "swap h ?k i"
  from down_target_range[OF v] have k: "?k < length h" "i < ?k" by auto
  have ik: "is_child i ?k" by (rule down_target_child)
  have nth: "\<And>j. ?h ! j = (if j = i then h ! ?k else if j = ?k then h ! i else h ! j)"
    using nth_swap[OF k(1) i] by simp
  have len: "length ?h = length h" by (simp add: length_swap)
  from inv have inv1: "\<And>p c. m \<le> p \<Longrightarrow> p \<noteq> i \<Longrightarrow> is_child p c \<Longrightarrow> c < length h \<Longrightarrow> heapPropertyHolds cmp (h ! p) (h ! c)"
    and inv2: "\<And>g c. m \<le> g \<Longrightarrow> is_child g i \<Longrightarrow> is_child i c \<Longrightarrow> c < length h \<Longrightarrow> heapPropertyHolds cmp (h ! g) (h ! c)"
    unfolding except_down_def by blast+
  have part1: "heapPropertyHolds cmp (?h ! p) (?h ! c)"
    if "m \<le> p" "p \<noteq> ?k" "is_child p c" "c < length h" for p c
  proof (cases "p = i")
    case True
    show ?thesis
    proof (cases "c = ?k")
      case True
      with \<open>p = i\<close> show ?thesis using nth k cur down_target_current[OF c v] by simp
    next
      case False
      have "c \<noteq> i" using that(3) True is_child_parent by blast
      with False True show ?thesis
        using nth down_target_sibling[OF c _ that(4), of i] that(3) by simp
    qed
  next
    case False
    have ck: "c \<noteq> ?k" using is_child_unique[OF that(3)] ik False by blast
    show ?thesis
    proof (cases "c = i")
      case True
      then show ?thesis using nth False that inv2[of p ?k] ik k by simp
    next
      case False
      with \<open>p \<noteq> i\<close> ck that show ?thesis using nth inv1[of p c] by simp
    qed
  qed
  have part2: "heapPropertyHolds cmp (?h ! g) (?h ! c)"
    if "m \<le> g" "is_child g ?k" "is_child ?k c" "c < length h" for g c
  proof -
    have g: "g = i" using is_child_unique[OF that(2) ik] .
    have "?k < c" using is_child_parent[OF that(3)] by simp
    then have "c \<noteq> i" "c \<noteq> ?k" using k by auto
    then show ?thesis using g nth inv1[of ?k c] that mi k by simp
  qed
  show ?thesis unfolding except_down_def len using part1 part2 by blast
qed

lemma sift_down_correct:
  assumes c: "consistent cmp"
  shows "i < length h \<Longrightarrow> h ! i = current \<Longrightarrow> m \<le> i \<Longrightarrow> except_down cmp h m i \<Longrightarrow>
         heap_from cmp (snd (heapifyDown_loop cmp h current i)) m"
proof (induction rule: heapifyDown_loop_induct[where cmp = cmp and current = current])
  case (stop h i)
  have "heapPropertyHolds cmp (h ! p) (h ! ch)" if "m \<le> p" "is_child p ch" "ch < length h" for p ch
  proof (cases "p = i")
    case True
    then show ?thesis using stop.hyps(2) stop.prems(1) that unfolding down_violation_def is_child_def by auto
  next
    case False
    then show ?thesis using stop.prems(3) that unfolding except_down_def by blast
  qed
  then show ?case by (simp add: heapifyDown_loop_stop[OF stop.hyps(2)] heap_from_def)
next
  case (step h i)
  let ?k = "down_target cmp h i"
  from down_target_range[OF step.hyps(2)] have k: "?k < length h" "i < ?k" by auto
  have "except_down cmp (swap h ?k i) m ?k"
    using except_down_step[OF c step.hyps(1) step.prems(1) step.prems(3) step.hyps(2) step.prems(2)] .
  moreover have "swap h ?k i ! ?k = current"
    using nth_swap[OF k(1) step.hyps(1)] step.prems(1) by simp
  moreover have "m \<le> ?k" using k step.prems(2) by simp
  ultimately show ?case using step.IH by (simp add: heapifyDown_loop_step[OF step.hyps(2)])
qed

lemma except_up_imp_at: "except_up cmp h i \<Longrightarrow> except_at cmp h i"
  unfolding except_up_def except_at_def by blast

lemma except_up_step:
  assumes c: "consistent cmp" and ci: "0 < ci" "ci < length h" and cur: "h ! ci = current"
    and inv: "except_at cmp h ci"
    and v: "\<not> heapPropertyHolds cmp (h ! (parent_of ci)) current"
  shows "except_up cmp ((h[parent_of ci := current])[ci := h ! (parent_of ci)]) (parent_of ci)"
proof -
  let ?p = "parent_of ci"
  let ?h = "(h[?p := current])[ci := h ! ?p]"
  have pc: "is_child ?p ci" using parent_is_child[OF ci(1)] .
  have lt: "?p < ci" using ci(1) by (rule parent_of_less)
  have nth: "\<And>j. j < length h \<Longrightarrow> ?h ! j = (if j = ci then h ! ?p else if j = ?p then current else h ! j)"
    using lt ci(2) by (simp add: nth_list_update)
  have len: "length ?h = length h" by simp
  from inv have inv1: "\<And>p c. is_child p c \<Longrightarrow> c < length h \<Longrightarrow> c \<noteq> ci \<Longrightarrow> p \<noteq> ci \<Longrightarrow> heapPropertyHolds cmp (h ! p) (h ! c)"
    and inv2: "\<And>g c. is_child g ci \<Longrightarrow> is_child ci c \<Longrightarrow> c < length h \<Longrightarrow> heapPropertyHolds cmp (h ! g) (h ! c)"
    unfolding except_at_def by blast+
  have up: "heapPropertyHolds cmp current (h ! ?p)" using holds_total[OF c v] .
  have part1: "heapPropertyHolds cmp (?h ! p) (?h ! ch)"
    if "is_child p ch" "ch < length h" "ch \<noteq> ?p" for p ch
  proof -
    have pl: "p < length h" "p < ch" using is_child_parent[OF that(1)] that(2) by auto
    show ?thesis
    proof (cases "ch = ci")
      case True
      then have "p = ?p" using is_child_unique[OF that(1)] pc by blast
      with True show ?thesis using nth[of ci] nth[of ?p] ci lt up by simp
    next
      case False
      note ch = this
      show ?thesis
      proof (cases "p = ci")
        case True
        then show ?thesis using nth[of ci] nth[of ch] that ch ci inv2[OF pc, of ch] by simp
      next
        case False
        show ?thesis
        proof (cases "p = ?p")
          case True
          have "heapPropertyHolds cmp (h ! ?p) (h ! ch)" using inv1[of ?p ch] that True ch lt by simp
          then have "heapPropertyHolds cmp current (h ! ch)" using holds_trans[OF c up] by blast
          then show ?thesis using True nth[of ?p] nth[of ch] that ch lt ci by simp
        next
          case False
          then show ?thesis using \<open>p \<noteq> ci\<close> ch that nth[of p] nth[of ch] pl inv1[of p ch] by simp
        qed
      qed
    qed
  qed
  have part2: "heapPropertyHolds cmp (?h ! g) (?h ! ch)"
    if "is_child g ?p" "is_child ?p ch" "ch < length h" for g ch
  proof -
    have g: "g < ?p" "g < length h" using is_child_parent[OF that(1)] lt ci by auto
    have gne: "g \<noteq> ci" "g \<noteq> ?p" using g lt by auto
    have gp: "heapPropertyHolds cmp (h ! g) (h ! ?p)" using inv1[OF that(1)] lt ci gne by simp
    have chp: "ch \<noteq> ?p" using is_child_parent[OF that(2)] by simp
    show ?thesis
    proof (cases "ch = ci")
      case True
      then show ?thesis using nth[of g] nth[of ci] g gne ci gp by simp
    next
      case False
      have "heapPropertyHolds cmp (h ! ?p) (h ! ch)" using inv1[OF that(2,3) False] lt by simp
      then have "heapPropertyHolds cmp (h ! g) (h ! ch)" using holds_trans[OF c gp] by blast
      then show ?thesis using nth[of g] nth[of ch] g gne False chp that(3) by simp
    qed
  qed
  show ?thesis unfolding except_up_def len using part1 part2 by blast
qed

lemma heap_from_zero_iff:
  "heap_from cmp h 0 \<longleftrightarrow> (\<forall>p c. is_child p c \<and> c < length h \<longrightarrow> heapPropertyHolds cmp (h ! p) (h ! c))"
  by (simp add: heap_from_def)

lemma sift_up_correct:
  assumes c: "consistent cmp"
  shows "ci < length h \<Longrightarrow> h ! ci = current \<Longrightarrow> except_up cmp h ci \<Longrightarrow>
         heap_from cmp (snd (heapifyUp_loop cmp h current ci)) 0"
proof (induction rule: heapifyUp_loop_induct[where cmp = cmp and current = current])
  case (root h)
  have "heapPropertyHolds cmp (h ! p) (h ! ch)" if "is_child p ch" "ch < length h" for p ch
  proof -
    have "ch \<noteq> 0" using is_child_parent[OF that(1)] by simp
    then show ?thesis using root.prems(2) that unfolding except_up_def by blast
  qed
  then show ?case by (simp add: heapifyUp_loop_root heap_from_zero_iff)
next
  case (stay h ci)
  have "heapPropertyHolds cmp (h ! p) (h ! ch)" if "is_child p ch" "ch < length h" for p ch
  proof (cases "ch = ci")
    case True
    then have "p = parent_of ci" using is_child_parent[OF that(1)] by simp
    with True show ?thesis using stay.hyps(3) stay.prems(1) by simp
  next
    case False
    then show ?thesis using stay.prems(2) that unfolding except_up_def by blast
  qed
  then show ?case by (simp add: heapifyUp_loop_stay[OF stay.hyps] heap_from_zero_iff)
next
  case (move h ci)
  let ?p = "parent_of ci"
  have lt: "?p < ci" using move.hyps(1) by (rule parent_of_less)
  have "except_up cmp ((h[?p := current])[ci := h ! ?p]) ?p"
    using except_up_step[OF c move.hyps(1,2) move.prems(1) except_up_imp_at[OF move.prems(2)] move.hyps(3)] .
  moreover have "((h[?p := current])[ci := h ! ?p]) ! ?p = current"
    using lt move.hyps(2) by simp
  ultimately show ?case using move.IH by (simp add: heapifyUp_loop_move[OF move.hyps])
qed

lemma heap_ok_iff: "heap_ok cmp h \<longleftrightarrow> heap_from cmp h 0"
proof
  assume a: "heap_ok cmp h"
  have "heapPropertyHolds cmp (h ! p) (h ! c)" if "is_child p c" "c < length h" for p c
  proof -
    have "p < length h" using is_child_parent[OF that(1)] that(2) by simp
    with a that show ?thesis
      unfolding heap_ok_def list_all_iff childrenIndexesOf_def is_child_def by auto
  qed
  then show "heap_from cmp h 0" by (simp add: heap_from_zero_iff)
next
  assume "heap_from cmp h 0"
  then show "heap_ok cmp h"
    unfolding heap_ok_def list_all_iff childrenIndexesOf_def heap_from_def is_child_def by auto
qed

lemma root_dominates:
  assumes c: "consistent cmp" and h: "heap_from cmp h 0"
  shows "j < length h \<Longrightarrow> heapPropertyHolds cmp (h ! 0) (h ! j)"
proof (induction j rule: less_induct)
  case (less j)
  show ?case
  proof (cases "j = 0")
    case True
    then show ?thesis using holds_refl[OF c] by simp
  next
    case False
    let ?p = "parent_of j"
    have pj: "is_child ?p j" using parent_is_child False by simp
    have lt: "?p < j" using False by (simp add: parent_of_less)
    have "heapPropertyHolds cmp (h ! 0) (h ! ?p)" using less.IH[OF lt] lt less.prems by simp
    moreover have "heapPropertyHolds cmp (h ! ?p) (h ! j)"
      using h pj less.prems unfolding heap_from_def by blast
    ultimately show ?thesis using holds_trans[OF c] by blast
  qed
qed

lemma root_dominates_set:
  assumes "consistent cmp" "heap_from cmp h 0" "x \<in> set h"
  shows "heapPropertyHolds cmp (h ! 0) x"
  using assms root_dominates by (metis in_set_conv_nth)

subsection \<open>add\<close>

lemma except_up_snoc:
  assumes "heap_from cmp h 0"
  shows "except_up cmp (h @ [x]) (length h)"
proof -
  have "heapPropertyHolds cmp ((h @ [x]) ! p) ((h @ [x]) ! c)"
    if "is_child p c" "c < length (h @ [x])" "c \<noteq> length h" for p c
  proof -
    have "c < length h" using that by simp
    moreover have "p < length h" using is_child_parent[OF that(1)] calculation by simp
    ultimately show ?thesis using assms that(1) unfolding heap_from_def by (simp add: nth_append)
  qed
  moreover have False if "is_child (length h) c" "c < length (h @ [x])" for c
    using is_child_parent[OF that(1)] that(2) by simp
  ultimately show ?thesis unfolding except_up_def by blast
qed

lemma heap_add_total:
  "\<exists>h'. heap_add cmp h x = Inr h' \<and> length h' = length h + 1 \<and> mset h' = mset h + {#x#}"
proof -
  have "arr_get (h @ [x]) (int (length h)) = Some x" by (simp add: arr_get_nat)
  then have "heap_add cmp h x = Inr (snd (heapifyUp_loop cmp (h @ [x]) x (length h)))"
    by (simp add: heap_add_def heap_size_def heapifyUp_def exists_def Let_def split: prod.splits)
  moreover have "length (snd (heapifyUp_loop cmp (h @ [x]) x (length h))) = length h + 1"
    by (simp add: heapifyUp_loop_length)
  moreover have "mset (snd (heapifyUp_loop cmp (h @ [x]) x (length h))) = mset h + {#x#}"
    by (simp add: heapifyUp_loop_mset)
  ultimately show ?thesis by simp
qed

lemma heap_add_ok:
  assumes "consistent cmp" "heap_ok cmp h" "heap_add cmp h x = Inr h'"
  shows "heap_ok cmp h'"
proof -
  have "arr_get (h @ [x]) (int (length h)) = Some x" by (simp add: arr_get_nat)
  then have "heap_add cmp h x = Inr (snd (heapifyUp_loop cmp (h @ [x]) x (length h)))"
    by (simp add: heap_add_def heap_size_def heapifyUp_def exists_def Let_def split: prod.splits)
  then have "h' = snd (heapifyUp_loop cmp (h @ [x]) x (length h))" using assms(3) by simp
  moreover have "heap_from cmp (snd (heapifyUp_loop cmp (h @ [x]) x (length h))) 0"
    by (rule sift_up_correct[OF assms(1)])
       (use assms(2) in \<open>simp_all add: except_up_snoc heap_ok_iff\<close>)
  ultimately show ?thesis by (simp add: heap_ok_iff)
qed

subsection \<open>poll\<close>

lemma butlast_swap_last:
  assumes "i < length h"
  shows "butlast (swapWithLast h i) = (butlast h)[i := last h]"
    and "mset (butlast (swapWithLast h i)) = mset h - {#h ! i#}"
proof -
  let ?n = "length h"
  have ne: "h \<noteq> []" using assms by auto
  have sw: "swapWithLast h i = (h[i := h ! (?n - 1)])[?n - 1 := h ! i]"
    by (simp add: swapWithLast_def swap_def Let_def)
  show 1: "butlast (swapWithLast h i) = (butlast h)[i := last h]"
    unfolding sw using ne by (simp add: butlast_list_update last_conv_nth list_update_beyond)
  have l: "last (swapWithLast h i) = h ! i"
    unfolding sw using ne assms by (simp add: last_conv_nth)
  have "swapWithLast h i \<noteq> []" unfolding sw using ne by simp
  then have "mset (swapWithLast h i) = mset (butlast (swapWithLast h i)) + {#last (swapWithLast h i)#}"
    by (metis append_butlast_last_id mset.simps(1) mset.simps(2) mset_append union_mset_add_mset_right add.right_neutral)
  moreover have "mset (swapWithLast h i) = mset h"
    unfolding swapWithLast_def using assms by (simp add: mset_swap_heap)
  ultimately show "mset (butlast (swapWithLast h i)) = mset h - {#h ! i#}"
    using l by simp
qed

lemma heap_from_update_butlast:
  assumes "heap_from cmp h 0" "i < length h - 1"
  shows "\<forall>p c. is_child p c \<and> c < length h - 1 \<and> c \<noteq> i \<and> p \<noteq> i \<longrightarrow>
           heapPropertyHolds cmp (((butlast h)[i := v]) ! p) (((butlast h)[i := v]) ! c)"
proof (intro allI impI)
  fix p c
  assume a: "is_child p c \<and> c < length h - 1 \<and> c \<noteq> i \<and> p \<noteq> i"
  then have p: "p < length h - 1" using is_child_parent[of p c] by simp
  from a have "c < length h" by arith
  then have "heapPropertyHolds cmp (h ! p) (h ! c)"
    using a assms(1) unfolding heap_from_def by blast
  with a p show "heapPropertyHolds cmp (((butlast h)[i := v]) ! p) (((butlast h)[i := v]) ! c)"
    by (simp add: nth_butlast)
qed

lemma heap_poll_ok:
  assumes c: "consistent cmp" and ok: "heap_ok cmp h" and ne: "h \<noteq> []"
  shows "\<exists>h'. heap_poll cmp h = Inr (h ! 0, h') \<and> heap_ok cmp h' \<and> mset h' = mset h - {#h ! 0#}"
proof -
  have n: "0 < length h" using ne by simp
  let ?h2 = "butlast (swapWithLast h 0)"
  have h2: "?h2 = (butlast h)[0 := last h]" and ms: "mset ?h2 = mset h - {#h ! 0#}"
    using butlast_swap_last[OF n] by auto
  show ?thesis
  proof (cases "length h = 1")
    case True
    then have "length ((butlast h)[0 := last h]) = 0" by simp
    then have "?h2 = []" unfolding h2 by (simp only: length_0_conv)
    then have "heap_poll cmp h = Inr (h ! 0, [])"
      using n by (simp add: heap_poll_def heap_size_def Let_def)
    moreover have "heap_ok cmp []" by (simp add: heap_ok_def)
    ultimately show ?thesis using ms \<open>?h2 = []\<close> by simp
  next
    case False
    have l2: "length ?h2 = length h - 1" by (simp add: swapWithLast_def length_swap)
    then have len: "0 < length ?h2" using n False by arith
    let ?cur = "?h2 ! 0"
    let ?h3 = "snd (heapifyDown_loop cmp ?h2 ?cur 0)"
    have "arr_get ?h2 (int 0) = Some ?cur" using len by (simp only: arr_get_nat if_True)
    moreover have ne2: "?h2 \<noteq> []" using len length_greater_0_conv by blast
    ultimately have "heap_poll cmp h = Inr (h ! 0, ?h3)"
      using ne by (simp add: heap_poll_def heap_size_def heapifyDown_def exists_def Let_def split: prod.splits)
    moreover have "heap_from cmp ?h3 0"
    proof (rule sift_down_correct[OF c len refl le_refl])
      have n2: "0 < length h - 1" using n False by arith
      have hf: "heap_from cmp h 0" using ok by (simp add: heap_ok_iff)
      have "\<forall>p c. is_child p c \<and> c < length h - 1 \<and> c \<noteq> 0 \<and> p \<noteq> 0 \<longrightarrow>
           heapPropertyHolds cmp (?h2 ! p) (?h2 ! c)"
        unfolding h2 by (rule heap_from_update_butlast[OF hf n2])
      moreover have "c \<noteq> 0" if "is_child p c" for p c using is_child_parent[OF that] by simp
      moreover have "\<not> is_child g 0" for g using is_child_parent[of g 0] by auto
      ultimately show "except_down cmp ?h2 0 0"
        unfolding except_down_def l2 by blast
    qed
    moreover have "mset ?h3 = mset ?h2" using len by (simp add: heapifyDown_loop_mset)
    ultimately show ?thesis using ms by (simp add: heap_ok_iff)
  qed
qed

subsection \<open>constructor\<close>

lemma heapifyDown_in_range:
  "i < length h \<Longrightarrow> heapifyDown cmp h i = Inr (heapifyDown_loop cmp h (h ! i) i)"
  by (simp add: heapifyDown_def exists_def arr_get_nat)

lemma heapifyUp_in_range:
  "i < length h \<Longrightarrow> heapifyUp cmp h i = Inr (heapifyUp_loop cmp h (h ! i) i)"
  by (simp add: heapifyUp_def exists_def arr_get_nat)

lemma heap_from_imp_except_down:
  assumes "heap_from cmp h (Suc i)"
  shows "except_down cmp h i i"
proof -
  have "heapPropertyHolds cmp (h ! p) (h ! c)" if "i \<le> p" "p \<noteq> i" "is_child p c" "c < length h" for p c
    using assms that unfolding heap_from_def by (metis Suc_leI le_neq_implies_less)
  moreover have False if "i \<le> g" "is_child g i" for g
    using is_child_parent[OF that(2)] that(1) by simp
  ultimately show ?thesis unfolding except_down_def by blast
qed

lemma constructor_loop_correct:
  assumes c: "consistent cmp"
  shows "n \<le> length h \<Longrightarrow> heap_from cmp h n \<Longrightarrow>
         \<exists>h'. constructor_loop cmp h n = Inr h' \<and> heap_from cmp h' 0 \<and> mset h' = mset h"
proof (induction n arbitrary: h)
  case 0
  then show ?case by simp
next
  case (Suc i)
  let ?h = "snd (heapifyDown_loop cmp h (h ! i) i)"
  have i: "i < length h" using Suc.prems(1) by simp
  have "heap_from cmp ?h i"
    by (rule sift_down_correct[OF c i refl le_refl heap_from_imp_except_down[OF Suc.prems(2)]])
  moreover have "length ?h = length h" "mset ?h = mset h"
    using i by (simp_all add: heapifyDown_loop_length heapifyDown_loop_mset)
  ultimately obtain h' where "constructor_loop cmp ?h i = Inr h'" "heap_from cmp h' 0" "mset h' = mset h"
    using Suc.IH[of ?h] i by auto
  then show ?case by (simp add: heapifyDown_in_range[OF i] case_prod_beta)
qed


lemma heap_from_length: "heap_from cmp h (length h)"
  unfolding heap_from_def using is_child_parent by fastforce

lemma heap_constructor_ok:
  assumes "consistent cmp"
  shows "\<exists>h. heap_constructor cmp items = Inr h \<and> heap_ok cmp h \<and> mset h = mset items"
  using constructor_loop_correct[OF assms le_refl heap_from_length, of items]
  by (simp add: heap_constructor_def heap_ok_iff)

subsection \<open>Successive polls\<close>

lemma polls_sorted:
  assumes c: "consistent cmp"
  shows "heap_ok cmp h \<Longrightarrow> n \<le> length h \<Longrightarrow>
         \<exists>xs h'. polls cmp h n = Inr (xs, h') \<and> length xs = n \<and> heap_ok cmp h' \<and>
                 mset h = mset xs + mset h' \<and> sorted_wrt (heapPropertyHolds cmp) xs"
proof (induction n arbitrary: h)
  case 0
  then show ?case by simp
next
  case (Suc n)
  then have ne: "h \<noteq> []" by auto
  from heap_poll_ok[OF c Suc.prems(1) ne] obtain h1 where
    h1: "heap_poll cmp h = Inr (h ! 0, h1)" "heap_ok cmp h1" "mset h1 = mset h - {#h ! 0#}" by blast
  have in0: "h ! 0 \<in># mset h" using ne by simp
  have "size (mset h1) = size (mset h) - 1" using h1(3) in0 by (simp add: size_Diff_singleton)
  then have "n \<le> length h1" using Suc.prems(2) by simp
  from Suc.IH[OF h1(2) this] obtain xs h' where
    r: "polls cmp h1 n = Inr (xs, h')" "length xs = n" "heap_ok cmp h'"
       "mset h1 = mset xs + mset h'" "sorted_wrt (heapPropertyHolds cmp) xs" by blast
  have dom: "heapPropertyHolds cmp (h ! 0) x" if "x \<in> set xs" for x
  proof -
    have "x \<in># mset h1" using that r(4) by simp
    then have "x \<in># mset h - {#h ! 0#}" using h1(3) by simp
    then have "x \<in># mset h" by (rule in_diffD)
    then show ?thesis using root_dominates_set[OF c] Suc.prems(1) by (simp add: heap_ok_iff)
  qed
  have "mset h = mset (h ! 0 # xs) + mset h'"
    using h1(3) r(4) in0 by (metis add_mset_add_single insert_DiffM mset.simps(2) union_mset_add_mset_left add.commute)
  then show ?case using h1(1) r dom by simp
qed

subsection \<open>remove\<close>

lemma indexOf_absent: "x \<notin> set h \<Longrightarrow> indexOf h x = -1"
  by (induction h) (auto simp: Let_def)

lemma indexOf_present:
  "x \<in> set h \<Longrightarrow> 0 \<le> indexOf h x \<and> nat (indexOf h x) < length h \<and> h ! nat (indexOf h x) = x \<and>
     (\<forall>j < nat (indexOf h x). h ! j \<noteq> x)"
proof (induction h)
  case Nil
  then show ?case by simp
next
  case (Cons y ys)
  show ?case
  proof (cases "y = x")
    case True
    then show ?thesis by simp
  next
    case False
    with Cons.prems have in_ys: "x \<in> set ys" by simp
    from Cons.IH[OF in_ys] have ih: "0 \<le> indexOf ys x" "nat (indexOf ys x) < length ys"
      "ys ! nat (indexOf ys x) = x" "\<forall>j < nat (indexOf ys x). ys ! j \<noteq> x" by auto
    have eq: "indexOf (y # ys) x = indexOf ys x + 1" using False ih(1) by (simp add: Let_def)
    have n: "nat (indexOf ys x + 1) = Suc (nat (indexOf ys x))" using ih(1) by simp
    show ?thesis unfolding eq n using ih False
      by (auto simp: nth_Cons split: nat.splits)
  qed
qed

lemma heap_from_butlast: "heap_from cmp h 0 \<Longrightarrow> heap_from cmp (butlast h) 0"
proof -
  assume a: "heap_from cmp h 0"
  have "heapPropertyHolds cmp (butlast h ! p) (butlast h ! c)" if "is_child p c" "c < length (butlast h)" for p c
  proof -
    have "p < length (butlast h)" using is_child_parent[OF that(1)] that(2) by simp
    moreover have "c < length h" using that(2) by simp
    ultimately show ?thesis using a that unfolding heap_from_def by (simp add: nth_butlast)
  qed
  then show ?thesis by (simp add: heap_from_zero_iff)
qed

lemma except_at_replace:
  assumes c: "consistent cmp" and hf: "heap_from cmp h 0" and i: "i < length h - 1"
  shows "except_at cmp ((butlast h)[i := v]) i"
proof -
  let ?h = "(butlast h)[i := v]"
  have len: "length ?h = length h - 1" by simp
  have "heapPropertyHolds cmp (?h ! g) (?h ! ch)" if "is_child g i" "is_child i ch" "ch < length h - 1" for g ch
  proof -
    have g: "g < i" "g \<noteq> i" using is_child_parent[OF that(1)] by auto
    have ch: "i < ch" "ch \<noteq> i" using is_child_parent[OF that(2)] by auto
    have "heapPropertyHolds cmp (h ! g) (h ! i)" using hf that(1) i unfolding heap_from_def by simp
    moreover have "heapPropertyHolds cmp (h ! i) (h ! ch)" using hf that(2,3) unfolding heap_from_def by simp
    ultimately have "heapPropertyHolds cmp (h ! g) (h ! ch)" using holds_trans[OF c] by blast
    then show ?thesis using g ch i that(3) by (simp add: nth_butlast)
  qed
  then show ?thesis
    unfolding except_at_def len using heap_from_update_butlast[OF hf i, of v] by blast
qed

lemma except_at_down:
  assumes "except_at cmp h i" "i = 0 \<or> heapPropertyHolds cmp (h ! (parent_of i)) (h ! i)"
  shows "except_down cmp h 0 i"
proof -
  have "heapPropertyHolds cmp (h ! p) (h ! ch)" if "p \<noteq> i" "is_child p ch" "ch < length h" for p ch
  proof (cases "ch = i")
    case True
    then have "p = parent_of i" "0 < i" using is_child_parent[OF that(2)] by auto
    then show ?thesis using assms(2) True by simp
  next
    case False
    then show ?thesis using assms(1) that unfolding except_at_def by blast
  qed
  then show ?thesis using assms(1) unfolding except_down_def except_at_def by blast
qed

lemma heap_remove_absent:
  "x \<notin> set h \<Longrightarrow> heap_remove cmp h x = Inl (RangeError ''No element found to remove'')"
  by (simp add: heap_remove_def indexOf_absent)

lemma heap_remove_unfold:
  assumes x: "x \<in> set h"
  shows "heap_remove cmp h x =
     (let i = nat (indexOf h x); h2 = (butlast h)[i := last h] in
      if i < length h - 1
      then (case heapifyUp_loop cmp h2 (last h) i of
              (newIndex, h3) \<Rightarrow>
                if newIndex = i then Inr (x, snd (heapifyDown_loop cmp h3 (h3 ! i) i))
                else Inr (x, h3))
      else Inr (x, butlast h))"
proof -
  let ?i = "nat (indexOf h x)"
  from indexOf_present[OF x] have ix: "indexOf h x \<noteq> -1" "?i < length h" "h ! ?i = x" by auto
  let ?h2 = "butlast (swapWithLast h ?i)"
  have h2: "?h2 = (butlast h)[?i := last h]" using butlast_swap_last(1)[OF ix(2)] .
  have l2: "length ?h2 = length h - 1" unfolding h2 by simp
  show ?thesis
  proof (cases "?i < length h - 1")
    case False
    then have "heap_remove cmp h x = Inr (x, ?h2)"
      using ix(1) l2 by (simp add: heap_remove_def heap_size_def Let_def)
    moreover have "?h2 = butlast h" unfolding h2 using False by (simp add: list_update_beyond)
    ultimately show ?thesis using False by (simp add: Let_def)
  next
    case True
    have i2: "?i < length ?h2" using True l2 by simp
    have cur: "?h2 ! ?i = last h" unfolding h2 using True by simp
    have up: "heapifyUp cmp ?h2 ?i = Inr (heapifyUp_loop cmp ?h2 (last h) ?i)"
      using heapifyUp_in_range[OF i2, of cmp] cur by simp
    have guard: "heap_size ?h2 > 0 \<and> ?i < heap_size ?h2" using i2 by (simp add: heap_size_def)
    obtain k h3 where r: "heapifyUp_loop cmp ?h2 (last h) ?i = (k, h3)"
      by (cases "heapifyUp_loop cmp ?h2 (last h) ?i")
    have "length h3 = length ?h2" using heapifyUp_loop_length[OF i2, of cmp "last h"] r by simp
    then have "?i < length h3" using i2 by simp
    then have down: "heapifyDown cmp h3 ?i = Inr (heapifyDown_loop cmp h3 (h3 ! ?i) ?i)"
      by (rule heapifyDown_in_range)
    have "heap_remove cmp h x =
        (if k = ?i then Inr (x, snd (heapifyDown_loop cmp h3 (h3 ! ?i) ?i)) else Inr (x, h3))"
      using ix(1) guard up r down by (simp add: heap_remove_def Let_def case_prod_beta)
    moreover have "heapifyUp_loop cmp ((butlast h)[?i := last h]) (last h) ?i = (k, h3)"
      using r unfolding h2 .
    ultimately show ?thesis using True by (simp add: Let_def)
  qed
qed

lemma heap_remove_total:
  assumes x: "x \<in> set h"
  shows "\<exists>h'. heap_remove cmp h x = Inr (x, h') \<and> length h' = length h - 1 \<and> mset h' = mset h - {#x#}"
proof -
  let ?i = "nat (indexOf h x)"
  from indexOf_present[OF x] have ix: "?i < length h" "h ! ?i = x" by auto
  let ?h2 = "(butlast h)[?i := last h]"
  have ms: "mset ?h2 = mset h - {#x#}" using butlast_swap_last[OF ix(1)] ix(2) by simp
  show ?thesis
  proof (cases "?i < length h - 1")
    case False
    then have "?h2 = butlast h" by (simp add: list_update_beyond)
    then show ?thesis using heap_remove_unfold[OF x, of cmp] False ms by (simp add: Let_def)
  next
    case True
    then have i2: "?i < length ?h2" by simp
    have cur: "?h2 ! ?i = last h" using True by simp
    obtain k h3 where r: "heapifyUp_loop cmp ?h2 (last h) ?i = (k, h3)"
      by (cases "heapifyUp_loop cmp ?h2 (last h) ?i")
    have l3: "length h3 = length ?h2" using heapifyUp_loop_length[OF i2, of cmp "last h"] r by simp
    have m3: "mset h3 = mset ?h2" using heapifyUp_loop_mset[OF i2 cur, of cmp] r by simp
    have i3: "?i < length h3" using i2 l3 by simp
    let ?h4 = "snd (heapifyDown_loop cmp h3 (h3 ! ?i) ?i)"
    have l4: "length ?h4 = length h3" and m4: "mset ?h4 = mset h3"
      using i3 by (simp_all add: heapifyDown_loop_length heapifyDown_loop_mset)
    have "heap_remove cmp h x = (if k = ?i then Inr (x, ?h4) else Inr (x, h3))"
      using heap_remove_unfold[OF x, of cmp] True r by (simp add: Let_def)
    then show ?thesis using l3 m3 l4 m4 ms by (cases "k = ?i") simp_all
  qed
qed

lemma heap_remove_present:
  assumes c: "consistent cmp" and ok: "heap_ok cmp h" and x: "x \<in> set h"
  shows "\<exists>h'. heap_remove cmp h x = Inr (x, h') \<and> heap_ok cmp h'"
proof -
  define i where "i = nat (indexOf h x)"
  define h2 where "h2 = (butlast h)[i := last h]"
  from indexOf_present[OF x] have ix: "i < length h" unfolding i_def by simp
  have hf: "heap_from cmp h 0" using ok by (simp add: heap_ok_iff)
  have unfold: "heap_remove cmp h x =
      (if i < length h - 1
       then (case heapifyUp_loop cmp h2 (last h) i of
               (newIndex, h3) \<Rightarrow>
                 if newIndex = i then Inr (x, snd (heapifyDown_loop cmp h3 (h3 ! i) i))
                 else Inr (x, h3))
       else Inr (x, butlast h))"
    using heap_remove_unfold[OF x, of cmp] unfolding i_def h2_def by (simp add: Let_def)
  show ?thesis
  proof (cases "i < length h - 1")
    case False
    then have "heap_remove cmp h x = Inr (x, butlast h)" unfolding unfold by simp
    then show ?thesis using heap_from_butlast[OF hf] by (simp add: heap_ok_iff)
  next
    case True
    have i2: "i < length h2" using True unfolding h2_def by simp
    have cur: "h2 ! i = last h" using True unfolding h2_def by simp
    have at: "except_at cmp h2 i" unfolding h2_def by (rule except_at_replace[OF c hf True])
    from True have unfold': "heap_remove cmp h x =
       (case heapifyUp_loop cmp h2 (last h) i of
          (newIndex, h3) \<Rightarrow>
            if newIndex = i then Inr (x, snd (heapifyDown_loop cmp h3 (h3 ! i) i))
            else Inr (x, h3))"
      unfolding unfold by simp
    consider (stay) "i = 0 \<or> heapPropertyHolds cmp (h2 ! parent_of i) (h2 ! i)"
      | (move) "0 < i" "\<not> heapPropertyHolds cmp (h2 ! parent_of i) (h2 ! i)" by blast
    then show ?thesis
    proof cases
      case stay
      have same: "heapifyUp_loop cmp h2 (last h) i = (i, h2)"
      proof (cases "i = 0")
        case True
        then show ?thesis using heapifyUp_loop_root[of cmp h2 "last h"] by simp
      next
        case False
        then have pos: "0 < i" by simp
        have hp: "heapPropertyHolds cmp (h2 ! parent_of i) (last h)" using stay False cur by simp
        show ?thesis by (rule heapifyUp_loop_stay[OF pos i2 hp])
      qed
      let ?h4 = "snd (heapifyDown_loop cmp h2 (h2 ! i) i)"
      have "heap_remove cmp h x = Inr (x, ?h4)" unfolding unfold' same by simp
      moreover have "heap_from cmp ?h4 0"
        by (rule sift_down_correct[OF c i2 refl le0 except_at_down[OF at stay]])
      ultimately show ?thesis by (simp add: heap_ok_iff)
    next
      case move
      define p where "p = parent_of i"
      define h3 where "h3 = (h2[p := last h])[i := h2 ! p]"
      have lt: "p < i" unfolding p_def using move(1) by (rule parent_of_less)
      have nh: "\<not> heapPropertyHolds cmp (h2 ! parent_of i) (last h)" using move(2) cur by simp
      obtain k h4 where r: "heapifyUp_loop cmp h3 (last h) p = (k, h4)"
        by (cases "heapifyUp_loop cmp h3 (last h) p")
      have step: "heapifyUp_loop cmp h2 (last h) i = (k, h4)"
        using heapifyUp_loop_move[OF move(1) i2 nh] r unfolding p_def h3_def by simp
      have p3: "p < length h3" using lt i2 unfolding h3_def by simp
      have "fst (heapifyUp_loop cmp h3 (last h) p) \<le> p" by (rule heapifyUp_loop_index[OF p3])
      then have ne: "k \<noteq> i" using lt r by simp
      have res: "heap_remove cmp h x = Inr (x, h4)" unfolding unfold' step using ne by simp
      have cur3: "h3 ! p = last h" using lt i2 unfolding h3_def by simp
      have "except_up cmp ((h2[parent_of i := last h])[i := h2 ! parent_of i]) (parent_of i)"
        by (rule except_up_step[OF c move(1) i2 cur at nh])
      then have eu: "except_up cmp h3 p" unfolding h3_def p_def .
      have "heap_from cmp (snd (heapifyUp_loop cmp h3 (last h) p)) 0"
        by (rule sift_up_correct[OF c p3 cur3 eu])
      then have "heap_from cmp h4 0" using r by simp
      then show ?thesis using res by (simp add: heap_ok_iff)
    qed
  qed
qed

lemma consistent_maxComparator: "consistent maxComparator"
  unfolding consistent_def maxComparator_def by auto

lemma run_ops_ok:
  assumes c: "consistent cmp"
  shows "heap_ok cmp h \<Longrightarrow> run_ops cmp h ops = Inr (outs, h') \<Longrightarrow> heap_ok cmp h'"
proof (induction ops arbitrary: h outs)
  case Nil
  then show ?case by simp
next
  case (Cons op ops)
  show ?case
  proof (cases op)
    case (Add x)
    obtain h1 where h1: "heap_add cmp h x = Inr h1" using heap_add_total[of cmp h x] by blast
    have "heap_ok cmp h1" using heap_add_ok[OF c Cons.prems(1) h1] .
    moreover have "run_ops cmp h1 ops = Inr (outs, h')" using Cons.prems(2) Add h1 by simp
    ultimately show ?thesis using Cons.IH by blast
  next
    case Poll
    show ?thesis
    proof (cases "h = []")
      case True
      then show ?thesis using Cons.prems(2) Poll by (simp add: heap_poll_def heap_size_def)
    next
      case False
      from heap_poll_ok[OF c Cons.prems(1) False] obtain h1 where
        h1: "heap_poll cmp h = Inr (h ! 0, h1)" "heap_ok cmp h1" by blast
      obtain xs h2 where r: "run_ops cmp h1 ops = Inr (xs, h2)"
        using Cons.prems(2) Poll h1(1) by (auto split: sum.splits)
      then have "h2 = h'" using Cons.prems(2) Poll h1(1) by simp
      then have "run_ops cmp h1 ops = Inr (xs, h')" using r by simp
      then show ?thesis using Cons.IH[OF h1(2)] by blast
    qed
  qed
qed

section \<open>BinaryHeap: the claims\<close>

lemma heap_peek_nonempty: "h \<noteq> [] \<Longrightarrow> heap_peek h = Inr (Some (h ! 0), h)"
  by (cases h) (simp_all add: heap_peek_def arr_get_def)

text \<open>
  C3. The claim: \<^verbatim>\<open>peek()\<close> and \<^verbatim>\<open>poll()\<close> both fail with a RangeError on a heap of size 0.
  The code: \<^verbatim>\<open>poll()\<close> does; \<^verbatim>\<open>peek()\<close> is the array read \<^verbatim>\<open>this._heap[0]\<close>, which
  on the empty heap returns \<^verbatim>\<open>undefined\<close> and throws nothing, against its own
  \<^verbatim>\<open>@throws RangeError if heap is empty\<close>. (On a non-empty heap it returns the element
  at index 0 and leaves the heap as it is: \<open>heap_peek_nonempty\<close>.)
\<close>

theorem heap_peek_empty_no_error:
  "heap_peek ([] :: 'a list) = Inr (None, []) \<and>
   heap_poll cmp ([] :: 'a list) = Inl (RangeError ''Heap is empty'')"
  by (simp add: heap_peek_def heap_poll_def heap_size_def arr_get_def)

text \<open>
  C4, as stated: in every sequence of \<^verbatim>\<open>add\<close> and \<^verbatim>\<open>poll\<close> calls each polled value has
  equal or higher priority than the next polled one. It fails when an \<^verbatim>\<open>add\<close> comes
  between two polls: with the max comparator, add 1, poll, add 5, poll returns 1 and then 5.
\<close>

theorem heap_interleaved_polls_counterexample:
  "run_ops maxComparator [] [Add 1, Poll, Add 5, Poll] = Inr ([1, 5], []) \<and>
   \<not> heapPropertyHolds maxComparator 1 5"
  by code_simp

text \<open>
  The order of polls also rests on the comparator's contract: a comparator that answers
  \<open>-1\<close> to everything is no comparison of a preorder, and no polled value has equal or
  higher priority than the next under it.
\<close>

lemma heap_polls_inconsistent_comparator:
  "run_ops (\<lambda>a b. - 1) [] [Add (1 :: int), Add 2, Poll, Poll] = Inr ([2, 1], []) \<and>
   \<not> heapPropertyHolds (\<lambda>a b. - 1) (2 :: int) 1 \<and>
   \<not> consistent (\<lambda>(a :: int) (b :: int). - 1)"
proof -
  have "run_ops (\<lambda>a b. - 1) [] [Add (1 :: int), Add 2, Poll, Poll] = Inr ([2, 1], [])" by code_simp
  moreover have "\<not> heapPropertyHolds (\<lambda>a b. - 1) (2 :: int) 1"
    by (simp add: heapPropertyHolds_def)
  moreover have "\<not> consistent (\<lambda>(a :: int) (b :: int). - 1)" by (simp add: consistent_def)
  ultimately show ?thesis by simp
qed

text \<open>
  C4, amended: for a consistent comparator, in whatever state a heap is after its
  construction from any items and any sequence of \<^verbatim>\<open>add\<close> and \<^verbatim>\<open>poll\<close> calls that did not
  throw, \<open>n\<close> successive polls with no \<^verbatim>\<open>add\<close> in between (\<open>n\<close> at most the size) all
  return, and each returned value has equal or higher priority than every later one.
\<close>

theorem heap_successive_polls_monotone:
  assumes "consistent cmp"
    and "heap_constructor cmp items = Inr h0"
    and "run_ops cmp h0 ops = Inr (outs, h)"
    and "n \<le> heap_size h"
  shows "\<exists>xs h'. polls cmp h n = Inr (xs, h') \<and> length xs = n \<and>
                 sorted_wrt (heapPropertyHolds cmp) xs"
proof -
  have "heap_ok cmp h0" using heap_constructor_ok[OF assms(1), of items] assms(2) by auto
  then have "heap_ok cmp h" using run_ops_ok[OF assms(1) _ assms(3)] by simp
  moreover have "n \<le> length h" using assms(4) by (simp add: heap_size_def)
  ultimately show ?thesis using polls_sorted[OF assms(1), of h n] by blast
qed

theorem heap_successive_polls_monotone_witness:
  "consistent maxComparator \<and>
   heap_constructor maxComparator [1, 5, 3] = Inr [5, 1, 3] \<and>
   run_ops maxComparator [5, 1, 3] [Add 4, Poll, Add 2] = Inr ([5], [4, 2, 3, 1]) \<and>
   (3 :: nat) \<le> heap_size [4, 2, 3, 1 :: int] \<and>
   (\<exists>xs h'. polls maxComparator [4, 2, 3, 1] 3 = Inr (xs, h') \<and> length xs = 3 \<and>
            sorted_wrt (heapPropertyHolds maxComparator) xs)"
proof -
  have c: "consistent maxComparator" by (rule consistent_maxComparator)
  have b: "heap_constructor maxComparator [1, 5, 3] = Inr [5, 1, 3]" by code_simp
  have r: "run_ops maxComparator [5, 1, 3] [Add 4, Poll, Add 2] = Inr ([5], [4, 2, 3, 1])" by code_simp
  have n: "(3 :: nat) \<le> heap_size [4, 2, 3, 1 :: int]" by (simp add: heap_size_def)
  show ?thesis using c b r n heap_successive_polls_monotone[OF c b r n] by blast
qed



text \<open>
  C6. \<^verbatim>\<open>remove(element)\<close> finds the first cell equal to the element and throws the
  not-found RangeError when there is none. Otherwise it returns the element; the size drops
  by exactly one and exactly one copy of the element is gone; the cell is overwritten by the
  last element, sifted up, and sifted down from the same index only when the sift-up left it
  there; and, for a consistent comparator and a heap that had the heap property, every
  parent/child pair has it afterwards.
\<close>

theorem heap_remove_correct:
  "(x \<notin> set h \<longrightarrow> heap_remove cmp h x = Inl (RangeError ''No element found to remove'')) \<and>
   (x \<in> set h \<longrightarrow>
      (\<exists>i h'. indexOf h x = int i \<and> i < heap_size h \<and> h ! i = x \<and> (\<forall>j < i. h ! j \<noteq> x) \<and>
         heap_remove cmp h x = Inr (x, h') \<and>
         heap_size h' = heap_size h - 1 \<and> mset h' = mset h - {#x#} \<and>
         h' = (if i < heap_size h - 1
               then (case heapifyUp_loop cmp ((butlast h)[i := last h]) (last h) i of
                       (newIndex, h3) \<Rightarrow>
                         if newIndex = i then snd (heapifyDown_loop cmp h3 (h3 ! i) i) else h3)
               else butlast h) \<and>
         (consistent cmp \<and> heap_ok cmp h \<longrightarrow> heap_ok cmp h')))"
proof (intro conjI impI)
  assume "x \<notin> set h"
  then show "heap_remove cmp h x = Inl (RangeError ''No element found to remove'')"
    by (rule heap_remove_absent)
next
  assume x: "x \<in> set h"
  define i where "i = nat (indexOf h x)"
  from indexOf_present[OF x] have ix: "indexOf h x = int i" "i < length h" "h ! i = x"
    "\<forall>j < i. h ! j \<noteq> x" unfolding i_def by auto
  from heap_remove_total[OF x, of cmp] obtain h' where
    h': "heap_remove cmp h x = Inr (x, h')" "length h' = length h - 1" "mset h' = mset h - {#x#}"
    by blast
  have shape: "h' = (if i < length h - 1
               then (case heapifyUp_loop cmp ((butlast h)[i := last h]) (last h) i of
                       (newIndex, h3) \<Rightarrow>
                         if newIndex = i then snd (heapifyDown_loop cmp h3 (h3 ! i) i) else h3)
               else butlast h)"
    using heap_remove_unfold[OF x, of cmp] h'(1) unfolding i_def
    by (simp add: Let_def case_prod_beta split: if_splits)
  have "heap_ok cmp h'" if "consistent cmp \<and> heap_ok cmp h"
    using heap_remove_present[of cmp h x] that x h'(1) by auto
  then show "\<exists>i h'. indexOf h x = int i \<and> i < heap_size h \<and> h ! i = x \<and> (\<forall>j < i. h ! j \<noteq> x) \<and>
         heap_remove cmp h x = Inr (x, h') \<and>
         heap_size h' = heap_size h - 1 \<and> mset h' = mset h - {#x#} \<and>
         h' = (if i < heap_size h - 1
               then (case heapifyUp_loop cmp ((butlast h)[i := last h]) (last h) i of
                       (newIndex, h3) \<Rightarrow>
                         if newIndex = i then snd (heapifyDown_loop cmp h3 (h3 ! i) i) else h3)
               else butlast h) \<and>
         (consistent cmp \<and> heap_ok cmp h \<longrightarrow> heap_ok cmp h')"
    using ix h' shape unfolding heap_size_def by blast
qed

theorem heap_remove_correct_witness:
  "(7 :: int) \<notin> set [9, 3, 8, 1, 2, 6] \<and>
   heap_remove maxComparator [9, 3, 8, 1, 2, 6] 7 = Inl (RangeError ''No element found to remove'') \<and>
   (1 :: int) \<in> set [9, 3, 8, 1, 2, 7] \<and> consistent maxComparator \<and>
   heap_ok maxComparator [9, 3, 8, 1, 2, 7] \<and>
   heap_remove maxComparator [9, 3, 8, 1, 2, 7] 1 = Inr (1, [9, 7, 8, 3, 2]) \<and>
   heap_ok maxComparator [9, 7, 8, 3, 2]"
proof -
  have a: "(7 :: int) \<notin> set [9, 3, 8, 1, 2, 6]" by simp
  have p: "(1 :: int) \<in> set [9, 3, 8, 1, 2, 7]" by simp
  have c: "consistent maxComparator" by (rule consistent_maxComparator)
  have ok: "heap_ok maxComparator [9, 3, 8, 1, 2, 7]" by code_simp
  have r: "heap_remove maxComparator [9, 3, 8, 1, 2, 7] 1 = Inr (1, [9, 7, 8, 3, 2])" by code_simp
  have "heap_remove maxComparator [9, 3, 8, 1, 2, 6] 7 = Inl (RangeError ''No element found to remove'')"
    using heap_remove_correct[of 7 "[9, 3, 8, 1, 2, 6]" maxComparator] by simp
  moreover have "heap_ok maxComparator [9, 7, 8, 3, 2]"
    using heap_remove_correct[of 1 "[9, 3, 8, 1, 2, 7]" maxComparator] p c ok r by auto
  ultimately show ?thesis using a p c ok r by simp
qed


section \<open>BinarySearchTree: proofs\<close>

declare inOrder_drain.simps [simp del]
declare addUnderSubtree.simps [simp del]

lemma pending_append: "pending (xs @ ys) = pending xs @ pending ys"
  by (induction xs) simp_all

lemma pending_spine: "pending (spine t @ [t]) = inorder t"
proof (induction t rule: spine.induct)
  case (1 v l r)
  show ?case
  proof (cases l)
    case None
    then show ?thesis by (simp add: inorder_opt_def)
  next
    case (Some ln)
    with 1 have "pending (spine ln @ [ln]) = inorder ln" by simp
    with Some show ?thesis by (simp add: pending_append inorder_opt_def)
  qed
qed

lemma dig_left_spine: "dig_left stack (Some t) = (spine t @ stack, Some (deepest t))"
proof (induction t arbitrary: stack rule: spine.induct)
  case (1 v l r)
  show ?case
  proof (cases l)
    case None
    then show ?thesis by simp
  next
    case (Some ln)
    with 1 show ?thesis by (simp add: push_def)
  qed
qed

lemma deepest_no_left: "left (deepest t) = None"
  by (induction t rule: deepest.induct) (simp split: option.splits)

lemma spine_deepest: "spine (deepest t) = []"
  using deepest_no_left[of t] by (cases "deepest t") simp

lemma dig_left_opt: "dig_left stack trav = (spine_opt trav @ stack, deepest_opt trav)"
  by (cases trav) (simp_all add: spine_opt_def deepest_opt_def dig_left_spine)

lemma spine_opt_deepest: "spine_opt (deepest_opt trav) = []"
  by (cases trav) (simp_all add: spine_opt_def deepest_opt_def spine_deepest)

lemma inOrder_drain_done:
  "inOrder_next tree st = Inr (None, st') \<Longrightarrow> inOrder_drain tree st = Inr []"
  by (simp add: inOrder_drain.simps[of tree st])

lemma inOrder_drain_more:
  "inOrder_next tree st = Inr (Some v, st') \<Longrightarrow> inOrder_drain tree st' = Inr vs \<Longrightarrow>
   inOrder_drain tree st = Inr (v # vs)"
  by (simp add: inOrder_drain.simps[of tree st])

lemma inOrder_drain_pending:
  assumes root: "bst_root tree \<noteq> None"
  shows "(stack = [] \<longrightarrow> spine_opt trav = []) \<Longrightarrow>
         inOrder_drain tree (stack, trav) = Inr (pending (spine_opt trav @ stack))"
proof (induction "inOrder_measure (stack, trav)" arbitrary: stack trav rule: less_induct)
  case less
  show ?case
  proof (cases stack)
    case Nil
    then have "inOrder_next tree (stack, trav) = Inr (None, (stack, trav))"
      by (simp add: inOrder_next_def)
    from inOrder_drain_done[OF this] show ?thesis using Nil less.prems by simp
  next
    case (Cons s0 srest)
    then obtain node rest where nr: "spine_opt trav @ stack = node # rest"
      by (cases "spine_opt trav @ stack") auto
    show ?thesis
    proof (cases "right node")
      case None
      have nx: "inOrder_next tree (stack, trav) = Inr (Some (val node), (rest, deepest_opt trav))"
        using root Cons nr None by (simp add: inOrder_next_def dig_left_opt pop_def)
      have "inOrder_drain tree (rest, deepest_opt trav) = Inr (pending (spine_opt (deepest_opt trav) @ rest))"
        by (rule less.hyps[OF inOrder_next_decreases[OF nx]]) (simp add: spine_opt_deepest)
      from inOrder_drain_more[OF nx this] show ?thesis using nr None
        by (simp add: spine_opt_deepest inorder_opt_def)
    next
      case (Some rn)
      have nx: "inOrder_next tree (stack, trav) = Inr (Some (val node), (push rn rest, Some rn))"
        using root Cons nr Some by (simp add: inOrder_next_def dig_left_opt pop_def)
      have "inOrder_drain tree (push rn rest, Some rn) = Inr (pending (spine_opt (Some rn) @ push rn rest))"
        by (rule less.hyps[OF inOrder_next_decreases[OF nx]]) (simp add: push_def)
      from inOrder_drain_more[OF nx this]
      have "inOrder_drain tree (stack, trav) = Inr (val node # pending (spine rn @ rn # rest))"
        by (simp add: spine_opt_def push_def)
      moreover have "pending (spine rn @ rn # rest) = inorder rn @ pending rest"
        using pending_append[of "spine rn @ [rn]" rest] pending_spine[of rn] by simp
      ultimately show ?thesis using nr Some
        by (simp add: inorder_opt_def)
    qed
  qed
qed

lemma traverseInOrder_inorder: "traverseInOrder tree = Inr (inorder_opt (bst_root tree))"
proof (cases "bst_root tree")
  case None
  then have "inOrder_next tree (inOrder_init tree) = Inr (None, inOrder_init tree)"
    by (simp add: inOrder_next_def inOrder_init_def)
  from inOrder_drain_done[OF this] show ?thesis using None
    by (simp add: traverseInOrder_def inorder_opt_def)
next
  case (Some rt)
  then have "inOrder_drain tree ([rt], Some rt) = Inr (pending (spine_opt (Some rt) @ [rt]))"
    using inOrder_drain_pending[of tree "[rt]" "Some rt"] by simp
  then show ?thesis using Some pending_spine[of rt]
    by (simp add: traverseInOrder_def inOrder_init_def push_def spine_opt_def inorder_opt_def)
qed

lemma cmp_flip: "consistent cmp \<Longrightarrow> cmp b a = - cmp a b"
  unfolding consistent_def by blast

lemma cmp_range: "consistent cmp \<Longrightarrow> cmp a b = -1 \<or> cmp a b = 0 \<or> cmp a b = 1"
  unfolding consistent_def by blast

lemma cmp_le_trans: "consistent cmp \<Longrightarrow> cmp a b \<le> 0 \<Longrightarrow> cmp b c \<le> 0 \<Longrightarrow> cmp a c \<le> 0"
  unfolding consistent_def by blast

lemma cmp_lt_iff: "consistent cmp \<Longrightarrow> cmp a b = -1 \<longleftrightarrow> \<not> cmp b a \<le> 0"
  using cmp_flip[of cmp a b] cmp_range[of cmp a b] by auto

lemma cmp_gt_iff: "consistent cmp \<Longrightarrow> cmp a b = 1 \<longleftrightarrow> cmp b a = -1"
  using cmp_flip[of cmp a b] by auto

lemma cmp_lt_trans:
  assumes c: "consistent cmp" and ab: "cmp a b = -1" and bc: "cmp b c = -1"
  shows "cmp a c = -1"
proof (rule ccontr)
  assume "cmp a c \<noteq> -1"
  then have "cmp c a \<le> 0" using cmp_lt_iff[OF c, of a c] by simp
  moreover have "cmp a b \<le> 0" using ab by simp
  ultimately have "cmp c b \<le> 0" using cmp_le_trans[OF c] by blast
  then show False using bc cmp_lt_iff[OF c, of b c] by simp
qed

lemma cmp_eq_lt:
  assumes c: "consistent cmp" and xy: "cmp x y = 0" and yv: "cmp y v = -1"
  shows "cmp x v = -1"
proof (rule ccontr)
  assume "cmp x v \<noteq> -1"
  then have "cmp v x \<le> 0" using cmp_lt_iff[OF c, of x v] by simp
  moreover have "cmp x y \<le> 0" using xy by simp
  ultimately have "cmp v y \<le> 0" using cmp_le_trans[OF c] by blast
  then show False using yv cmp_lt_iff[OF c, of y v] by simp
qed

lemma cmp_eq_gt:
  assumes c: "consistent cmp" and xy: "cmp x y = 0" and yv: "cmp y v = 1"
  shows "cmp x v = 1"
proof -
  have "cmp y x = 0" using xy cmp_flip[OF c, of x y] by simp
  have "cmp v y = -1" using yv cmp_gt_iff[OF c] by simp
  have "cmp v x = -1"
  proof (rule ccontr)
    assume "cmp v x \<noteq> -1"
    then have "cmp x v \<le> 0" using cmp_lt_iff[OF c, of v x] by simp
    moreover have "cmp y x \<le> 0" using \<open>cmp y x = 0\<close> by simp
    ultimately have "cmp y v \<le> 0" using cmp_le_trans[OF c] by blast
    then show False using yv by simp
  qed
  then show ?thesis using cmp_gt_iff[OF c] by simp
qed

lemma is_bst_fields:
  "is_bst cmp n \<longleftrightarrow>
     is_bst_opt cmp (left n) \<and> (\<forall>y \<in> set (inorder_opt (left n)). cmp y (val n) = -1) \<and>
     is_bst_opt cmp (right n) \<and> (\<forall>y \<in> set (inorder_opt (right n)). cmp y (val n) = 1)"
  by (cases n) (auto simp: is_bst_opt_def inorder_opt_def list_all_iff split: option.splits)

lemma is_bst_sorted:
  assumes c: "consistent cmp"
  shows "is_bst cmp n \<Longrightarrow> sorted_wrt (\<lambda>a b. cmp a b = -1) (inorder n)"
proof (induction n rule: inorder.induct)
  case (1 v l r)
  have L: "sorted_wrt (\<lambda>a b. cmp a b = -1) (inorder_opt l)"
    using 1 by (cases l) (auto simp: inorder_opt_def)
  have R: "sorted_wrt (\<lambda>a b. cmp a b = -1) (inorder_opt r)"
    using 1 by (cases r) (auto simp: inorder_opt_def)
  have lv: "\<forall>y \<in> set (inorder_opt l). cmp y v = -1"
    using 1(3) by (cases l) (auto simp: inorder_opt_def list_all_iff)
  have vr: "\<forall>y \<in> set (inorder_opt r). cmp v y = -1"
    using 1(3) cmp_gt_iff[OF c] by (cases r) (auto simp: inorder_opt_def list_all_iff)
  have lr: "\<forall>x \<in> set (inorder_opt l). \<forall>y \<in> set (inorder_opt r). cmp x y = -1"
    using lv vr cmp_lt_trans[OF c] by blast
  have "inorder (BinarySearchNode v l r) = inorder_opt l @ v # inorder_opt r"
    by (simp add: inorder_opt_def)
  then show ?case using L R lv vr lr by (simp add: sorted_wrt_append)
qed

text \<open>Insertion below a node.\<close>


lemma has_equal_iff: "has_equal cmp x ys \<longleftrightarrow> (\<exists>y \<in> set ys. cmp x y = 0)"
  by (simp add: has_equal_def list_ex_iff)

lemma addUnderSubtree_spec:
  assumes c: "consistent cmp"
  shows "is_bst cmp n \<Longrightarrow> addUnderSubtree cmp x n = (added, n') \<Longrightarrow>
         (if has_equal cmp x (inorder n) then added = None \<and> n' = n
          else added \<noteq> None \<and> mset (inorder n') = add_mset x (mset (inorder n)) \<and> is_bst cmp n')"
proof (induction n arbitrary: added n')
  case (BinarySearchNode v l r)
  let ?n = "BinarySearchNode v l r"
  from BinarySearchNode.prems(1) have
    bl: "is_bst_opt cmp l" and lv: "\<forall>y \<in> set (inorder_opt l). cmp y v = -1" and
    br: "is_bst_opt cmp r" and rv: "\<forall>y \<in> set (inorder_opt r). cmp y v = 1"
    using is_bst_fields[of cmp ?n] by simp_all
  have io: "inorder ?n = inorder_opt l @ v # inorder_opt r" by (simp add: inorder_opt_def)
  consider (gt) "cmp x v = 1" | (lt) "cmp x v = -1" | (eq) "cmp x v = 0"
    using cmp_range[OF c, of x v] by blast
  then show ?case
  proof cases
    case eq
    then have "has_equal cmp x (inorder ?n)" by (simp add: has_equal_iff)
    moreover have "addUnderSubtree cmp x ?n = (None, ?n)" using eq by (simp add: addUnderSubtree.simps)
    ultimately show ?thesis using BinarySearchNode.prems(2) by simp
  next
    case gt
    have nol: "\<not> has_equal cmp x (inorder_opt l)"
    proof
      assume "has_equal cmp x (inorder_opt l)"
      then obtain y where "y \<in> set (inorder_opt l)" "cmp x y = 0" by (auto simp: has_equal_iff)
      then have "cmp x v = -1" using cmp_eq_lt[OF c] lv by blast
      then show False using gt by simp
    qed
    have here: "has_equal cmp x (inorder ?n) \<longleftrightarrow> has_equal cmp x (inorder_opt r)"
      using nol gt unfolding io has_equal_iff by auto
    show ?thesis
    proof (cases r)
      case None
      have "addUnderSubtree cmp x ?n =
              (Some (BinarySearchNode x None None), BinarySearchNode v l (Some (BinarySearchNode x None None)))"
        using gt None by (simp add: addUnderSubtree.simps Let_def)
      then have a: "added = Some (BinarySearchNode x None None)"
        and n': "n' = BinarySearchNode v l (Some (BinarySearchNode x None None))"
        using BinarySearchNode.prems(2) by simp_all
      have "\<not> has_equal cmp x (inorder ?n)" using here None by (simp add: has_equal_iff inorder_opt_def)
      moreover have "is_bst cmp n'"
        using bl lv gt unfolding n' is_bst_fields[of cmp "BinarySearchNode v l (Some (BinarySearchNode x None None))"]
        by (simp add: is_bst_opt_def inorder_opt_def)
      moreover have "mset (inorder n') = add_mset x (mset (inorder ?n))"
        unfolding n' using None by (simp add: inorder_opt_def)
      ultimately show ?thesis using a by simp
    next
      case (Some rn)
      obtain a rn' where rec: "addUnderSubtree cmp x rn = (a, rn')" by (cases "addUnderSubtree cmp x rn")
      have "addUnderSubtree cmp x ?n = (a, BinarySearchNode v l (Some rn'))"
        using gt Some rec by (simp add: addUnderSubtree.simps Let_def)
      then have a: "added = a" and n': "n' = BinarySearchNode v l (Some rn')"
        using BinarySearchNode.prems(2) by simp_all
      have brn: "is_bst cmp rn" using br Some by (simp add: is_bst_opt_def)
      have ih: "if has_equal cmp x (inorder rn) then a = None \<and> rn' = rn
                else a \<noteq> None \<and> mset (inorder rn') = add_mset x (mset (inorder rn)) \<and> is_bst cmp rn'"
        using BinarySearchNode.IH(2)[of rn a rn'] Some brn rec by simp
      show ?thesis
      proof (cases "has_equal cmp x (inorder rn)")
        case True
        then show ?thesis using ih here Some a n' by (simp add: inorder_opt_def)
      next
        case False
        with ih have r1: "a \<noteq> None" "mset (inorder rn') = add_mset x (mset (inorder rn))" "is_bst cmp rn'"
          by simp_all
        have "set (inorder rn') = insert x (set (inorder rn))"
          using r1(2) by (metis set_mset_add_mset_insert set_mset_mset)
        then have "\<forall>y \<in> set (inorder rn'). cmp y v = 1" using rv Some gt by (simp add: inorder_opt_def)
        then have "is_bst cmp n'"
          using bl lv r1(3) unfolding n' is_bst_fields[of cmp "BinarySearchNode v l (Some rn')"]
          by (simp add: is_bst_opt_def inorder_opt_def)
        moreover have "mset (inorder n') = add_mset x (mset (inorder ?n))"
          unfolding n' using Some r1(2) by (simp add: inorder_opt_def)
        ultimately show ?thesis using False here Some a r1(1) by (simp add: inorder_opt_def)
      qed
    qed
  next
    case lt
    have nor: "\<not> has_equal cmp x (inorder_opt r)"
    proof
      assume "has_equal cmp x (inorder_opt r)"
      then obtain y where "y \<in> set (inorder_opt r)" "cmp x y = 0" by (auto simp: has_equal_iff)
      then have "cmp x v = 1" using cmp_eq_gt[OF c] rv by blast
      then show False using lt by simp
    qed
    have here: "has_equal cmp x (inorder ?n) \<longleftrightarrow> has_equal cmp x (inorder_opt l)"
      using nor lt unfolding io has_equal_iff by auto
    show ?thesis
    proof (cases l)
      case None
      have "addUnderSubtree cmp x ?n =
              (Some (BinarySearchNode x None None), BinarySearchNode v (Some (BinarySearchNode x None None)) r)"
        using lt None by (simp add: addUnderSubtree.simps Let_def)
      then have a: "added = Some (BinarySearchNode x None None)"
        and n': "n' = BinarySearchNode v (Some (BinarySearchNode x None None)) r"
        using BinarySearchNode.prems(2) by simp_all
      have "\<not> has_equal cmp x (inorder ?n)" using here None by (simp add: has_equal_iff inorder_opt_def)
      moreover have "is_bst cmp n'"
        using br rv lt unfolding n' is_bst_fields[of cmp "BinarySearchNode v (Some (BinarySearchNode x None None)) r"]
        by (simp add: is_bst_opt_def inorder_opt_def)
      moreover have "mset (inorder n') = add_mset x (mset (inorder ?n))"
        unfolding n' using None by (simp add: inorder_opt_def)
      ultimately show ?thesis using a by simp
    next
      case (Some ln)
      obtain a ln' where rec: "addUnderSubtree cmp x ln = (a, ln')" by (cases "addUnderSubtree cmp x ln")
      have "addUnderSubtree cmp x ?n = (a, BinarySearchNode v (Some ln') r)"
        using lt Some rec by (simp add: addUnderSubtree.simps Let_def)
      then have a: "added = a" and n': "n' = BinarySearchNode v (Some ln') r"
        using BinarySearchNode.prems(2) by simp_all
      have bln: "is_bst cmp ln" using bl Some by (simp add: is_bst_opt_def)
      have ih: "if has_equal cmp x (inorder ln) then a = None \<and> ln' = ln
                else a \<noteq> None \<and> mset (inorder ln') = add_mset x (mset (inorder ln)) \<and> is_bst cmp ln'"
        using BinarySearchNode.IH(1)[of ln a ln'] Some bln rec by simp
      show ?thesis
      proof (cases "has_equal cmp x (inorder ln)")
        case True
        then show ?thesis using ih here Some a n' by (simp add: inorder_opt_def)
      next
        case False
        with ih have r1: "a \<noteq> None" "mset (inorder ln') = add_mset x (mset (inorder ln))" "is_bst cmp ln'"
          by simp_all
        have "set (inorder ln') = insert x (set (inorder ln))"
          using r1(2) by (metis set_mset_add_mset_insert set_mset_mset)
        then have "\<forall>y \<in> set (inorder ln'). cmp y v = -1" using lv Some lt by (simp add: inorder_opt_def)
        then have "is_bst cmp n'"
          using br rv r1(3) unfolding n' is_bst_fields[of cmp "BinarySearchNode v (Some ln') r"]
          by (simp add: is_bst_opt_def inorder_opt_def)
        moreover have "mset (inorder n') = add_mset x (mset (inorder ?n))"
          unfolding n' using Some r1(2) by (simp add: inorder_opt_def)
        ultimately show ?thesis using False here Some a r1(1) by (simp add: inorder_opt_def)
      qed
    qed
  qed
qed

lemma bst_add_spec:
  assumes c: "consistent cmp" and b: "is_bst_opt cmp (bst_root t)"
  shows "is_bst_opt cmp (bst_root (bst_add cmp x t)) \<and>
         (if has_equal cmp x (inorder_opt (bst_root t)) then bst_add cmp x t = t
          else mset (inorder_opt (bst_root (bst_add cmp x t))) = add_mset x (mset (inorder_opt (bst_root t))) \<and>
               bst_size (bst_add cmp x t) = bst_size t + 1)"
proof (cases "bst_root t")
  case None
  then show ?thesis
    by (simp add: bst_add_def is_bst_opt_def inorder_opt_def has_equal_iff)
next
  case (Some rt)
  obtain added rt' where rec: "addUnderSubtree cmp x rt = (added, rt')" by (cases "addUnderSubtree cmp x rt")
  have brt: "is_bst cmp rt" using b Some by (simp add: is_bst_opt_def)
  note spec = addUnderSubtree_spec[OF c brt rec]
  show ?thesis
  proof (cases "has_equal cmp x (inorder rt)")
    case True
    with spec have "added = None" "rt' = rt" by simp_all
    then have "bst_add cmp x t = t" using Some rec by (simp add: bst_add_def)
    then show ?thesis using True Some b by (simp add: inorder_opt_def)
  next
    case False
    with spec have s: "added \<noteq> None" "mset (inorder rt') = add_mset x (mset (inorder rt))" "is_bst cmp rt'"
      by simp_all
    have "bst_add cmp x t = t\<lparr>bst_root := Some rt', bst_size := bst_size t + 1\<rparr>"
      using Some rec s(1) by (simp add: bst_add_def)
    then show ?thesis using False Some s by (simp add: inorder_opt_def is_bst_opt_def)
  qed
qed

lemma distinct_values_snoc:
  "distinct_values cmp (xs @ [x]) =
     (if has_equal cmp x (distinct_values cmp xs) then distinct_values cmp xs
      else distinct_values cmp xs @ [x])"
  by (simp add: distinct_values_def)

lemma bst_constructor_snoc: "bst_constructor cmp (xs @ [x]) = bst_add cmp x (bst_constructor cmp xs)"
  by (simp add: bst_constructor_def)

lemma has_equal_cong_set: "set ys = set zs \<Longrightarrow> has_equal cmp x ys = has_equal cmp x zs"
  by (simp add: has_equal_iff)

lemma bst_constructor_inv:
  assumes c: "consistent cmp"
  shows "is_bst_opt cmp (bst_root (bst_constructor cmp xs)) \<and>
         mset (inorder_opt (bst_root (bst_constructor cmp xs))) = mset (distinct_values cmp xs) \<and>
         bst_size (bst_constructor cmp xs) = int (length (distinct_values cmp xs))"
proof (induction xs rule: rev_induct)
  case Nil
  then show ?case
    by (simp add: bst_constructor_def distinct_values_def bst_empty_def is_bst_opt_def inorder_opt_def)
next
  case (snoc x xs)
  let ?t = "bst_constructor cmp xs"
  from snoc have b: "is_bst_opt cmp (bst_root ?t)"
    and m: "mset (inorder_opt (bst_root ?t)) = mset (distinct_values cmp xs)"
    and z: "bst_size ?t = int (length (distinct_values cmp xs))" by simp_all
  have "set (inorder_opt (bst_root ?t)) = set (distinct_values cmp xs)" using m by (rule mset_eq_setD)
  then have he: "has_equal cmp x (inorder_opt (bst_root ?t)) = has_equal cmp x (distinct_values cmp xs)"
    by (rule has_equal_cong_set)
  note spec = bst_add_spec[OF c b, of x]
  show ?case
  proof (cases "has_equal cmp x (distinct_values cmp xs)")
    case True
    then have "bst_add cmp x ?t = ?t" using spec he by simp
    then show ?thesis using True b m z by (simp add: bst_constructor_snoc distinct_values_snoc)
  next
    case False
    then show ?thesis using spec he m z by (simp add: bst_constructor_snoc distinct_values_snoc)
  qed
qed

lemma sorted_wrt_strict_imp:
  "sorted_wrt (\<lambda>a b. cmp a b = -1) ys \<Longrightarrow> sorted_wrt (\<lambda>a b. cmp a b \<noteq> (1::int)) ys"
  by (rule sorted_wrt_mono_rel[of ys "\<lambda>a b. cmp a b = -1"]) auto

text \<open>find and remove on an absent element.\<close>

lemma findUnderSubtree_absent:
  "\<not> has_equal cmp x (inorder n) \<Longrightarrow> findUnderSubtree cmp x n at parent = (None, None)"
proof (induction n arbitrary: at parent)
  case (BinarySearchNode v l r)
  have io: "inorder (BinarySearchNode v l r) = inorder_opt l @ v # inorder_opt r" by (simp add: inorder_opt_def)
  from BinarySearchNode.prems have ne: "cmp x v \<noteq> 0"
    and nl: "\<not> has_equal cmp x (inorder_opt l)" and nr: "\<not> has_equal cmp x (inorder_opt r)"
    unfolding io has_equal_iff by auto
  have L: "findUnderSubtree cmp x ln a p = (None, None)" if "l = Some ln" for ln a p
    using BinarySearchNode.IH(1)[of ln a p] that nl by (simp add: inorder_opt_def)
  have R: "findUnderSubtree cmp x rn a p = (None, None)" if "r = Some rn" for rn a p
    using BinarySearchNode.IH(2)[of rn a p] that nr by (simp add: inorder_opt_def)
  show ?case using ne L R by (simp add: Let_def split: option.splits)
qed

lemma bst_absent:
  assumes "\<not> has_equal cmp x (inorder_opt (bst_root t))"
  shows "bst_find cmp x t = None" "bst_remove cmp x t = (Inl (RangeError ''Element not found''), t)"
proof -
  show "bst_find cmp x t = None"
    using assms findUnderSubtree_absent[of cmp x _ "[]" None]
    by (cases "bst_root t") (simp_all add: bst_find_def inorder_opt_def)
  show "bst_remove cmp x t = (Inl (RangeError ''Element not found''), t)"
    using assms findUnderSubtree_absent[of cmp x _ "[]" None]
    by (cases "bst_root t") (simp_all add: bst_remove_def inorder_opt_def)
qed

lemma bst_add_size: "bst_size (bst_add cmp x t) = bst_size t \<or> bst_size (bst_add cmp x t) = bst_size t + 1"
  by (cases "bst_root t") (auto simp: bst_add_def split: prod.splits)

section \<open>BinarySearchTree: the claims\<close>

text \<open>
  C7. After inserting \<open>[0, -2, -4, -1, 2, 3]\<close> into an empty tree with the numeric comparator,
  exhausting a fresh iterator of each kind yields the four sequences of the specification.
\<close>

theorem bst_traversals_small_tree:
  "traversePreOrder (bst_constructor maxComparator [0, -2, -4, -1, 2, 3]) = Inr [0, -2, -4, -1, 2, 3] \<and>
   traverseInOrder (bst_constructor maxComparator [0, -2, -4, -1, 2, 3]) = Inr [-4, -2, -1, 0, 2, 3] \<and>
   traversePostOrder (bst_constructor maxComparator [0, -2, -4, -1, 2, 3]) = Inr [-4, -1, -2, 3, 2, 0] \<and>
   traverseLevelOrder (bst_constructor maxComparator [0, -2, -4, -1, 2, 3]) = Inr [0, -2, 2, -4, -1, 3]"
  by code_simp

text \<open>
  C8. For a consistent comparator and any sequence \<open>xs\<close> of \<^verbatim>\<open>add\<close> calls on an empty
  tree, \<^verbatim>\<open>traverseInOrder()\<close> returns, without throwing, the distinct values of \<open>xs\<close>
  in strictly increasing, hence non-decreasing, comparator order; \<^verbatim>\<open>size\<close> is their
  number; and adding a value equal to a stored one gives back the very same tree and size.
\<close>

theorem bst_insertions_inorder_sorted:
  assumes "consistent cmp"
  shows "\<exists>ys. traverseInOrder (bst_constructor cmp xs) = Inr ys \<and>
              sorted_wrt (\<lambda>a b. cmp a b = -1) ys \<and>
              sorted_wrt (\<lambda>a b. cmp a b \<noteq> 1) ys \<and>
              mset ys = mset (distinct_values cmp xs) \<and>
              bst_size (bst_constructor cmp xs) = int (length (distinct_values cmp xs)) \<and>
              (\<forall>x. has_equal cmp x ys \<longrightarrow>
                   bst_add cmp x (bst_constructor cmp xs) = bst_constructor cmp xs)"
proof -
  let ?t = "bst_constructor cmp xs"
  let ?ys = "inorder_opt (bst_root ?t)"
  from bst_constructor_inv[OF assms, of xs] have
    b: "is_bst_opt cmp (bst_root ?t)" and m: "mset ?ys = mset (distinct_values cmp xs)" and
    z: "bst_size ?t = int (length (distinct_values cmp xs))" by simp_all
  have s: "sorted_wrt (\<lambda>a b. cmp a b = -1) ?ys"
    using b is_bst_sorted[OF assms] by (cases "bst_root ?t") (simp_all add: inorder_opt_def is_bst_opt_def)
  have d: "bst_add cmp x ?t = ?t" if "has_equal cmp x ?ys" for x
    using bst_add_spec[OF assms b, of x] that by simp
  show ?thesis
    using traverseInOrder_inorder[of ?t] s sorted_wrt_strict_imp[OF s] m z d by blast
qed

theorem bst_insertions_inorder_sorted_witness:
  "consistent maxComparator \<and>
   traverseInOrder (bst_constructor maxComparator [3, 1, 3, 2]) = Inr [1, 2, 3] \<and>
   distinct_values maxComparator [3, 1, 3, 2] = [3, 1, 2] \<and>
   bst_size (bst_constructor maxComparator [3, 1, 3, 2]) = 3 \<and>
   has_equal maxComparator 3 [1, 2, 3] \<and>
   bst_add maxComparator 3 (bst_constructor maxComparator [3, 1, 3, 2]) =
     bst_constructor maxComparator [3, 1, 3, 2]"
proof -
  have c: "consistent maxComparator" by (rule consistent_maxComparator)
  have t: "traverseInOrder (bst_constructor maxComparator [3, 1, 3, 2]) = Inr [1, 2, 3]" by code_simp
  have d: "distinct_values maxComparator [3, 1, 3, 2] = [3, 1, 2]" by code_simp
  have h: "has_equal maxComparator 3 [1, 2, 3]" by code_simp
  from bst_insertions_inorder_sorted[OF c, of "[3, 1, 3, 2]"] t d h
  have "bst_size (bst_constructor maxComparator [3, 1, 3, 2]) = 3"
    and "bst_add maxComparator 3 (bst_constructor maxComparator [3, 1, 3, 2]) =
         bst_constructor maxComparator [3, 1, 3, 2]"
    by auto
  then show ?thesis using c t d h by simp
qed

text \<open>
  C9. For any tree and comparator and an element that no stored value compares equal to
  (the empty tree included), \<^verbatim>\<open>find\<close> returns null without throwing, and \<^verbatim>\<open>remove\<close>
  throws the RangeError \<^verbatim>\<open>Element not found\<close> and leaves root and size as they were.
  \<^verbatim>\<open>add\<close> has no throwing path at all: it returns a tree, of the same size or one more.
\<close>

theorem bst_absent_element:
  assumes "\<not> has_equal cmp x (inorder_opt (bst_root t))"
  shows "bst_find cmp x t = None \<and>
         bst_remove cmp x t = (Inl (RangeError ''Element not found''), t) \<and>
         (bst_size (bst_add cmp x t) = bst_size t \<or> bst_size (bst_add cmp x t) = bst_size t + 1)"
  using bst_absent[OF assms] bst_add_size[of cmp x t] by simp

theorem bst_absent_element_witness:
  "\<not> has_equal maxComparator 7 (inorder_opt (bst_root (bst_constructor maxComparator [2, 1, 5]))) \<and>
   bst_find maxComparator 7 (bst_constructor maxComparator [2, 1, 5]) = None \<and>
   bst_remove maxComparator 7 (bst_constructor maxComparator [2, 1, 5]) =
     (Inl (RangeError ''Element not found''), bst_constructor maxComparator [2, 1, 5]) \<and>
   \<not> has_equal maxComparator 7 (inorder_opt (bst_root (bst_empty :: int BinarySearchTree))) \<and>
   bst_find maxComparator 7 bst_empty = None \<and>
   bst_remove maxComparator 7 bst_empty = (Inl (RangeError ''Element not found''), bst_empty)"
proof -
  have a: "\<not> has_equal maxComparator 7 (inorder_opt (bst_root (bst_constructor maxComparator [2, 1, 5])))"
    by code_simp
  have e: "\<not> has_equal maxComparator 7 (inorder_opt (bst_root (bst_empty :: int BinarySearchTree)))"
    by code_simp
  show ?thesis using a e bst_absent_element[OF a] bst_absent_element[OF e] by simp
qed

text \<open>
  C1. The claim: after a successful \<^verbatim>\<open>remove\<close>, the in-order traversal yields the remaining
  elements in non-decreasing order, also when the removed node has two children and its
  in-order successor is not its direct right child. The code: in the tree built from
  \<open>[2, 1, 5, 3, 4]\<close> (in-order \<open>1, 2, 3, 4, 5\<close>) the node 2 has the children 1 and 5 and
  the successor 3, the left child of 5; \<^verbatim>\<open>remove(2)\<close> returns 2 and sets the size to 4,
  but the traversal then yields the six values \<open>1, 3, 4, 3, 4, 5\<close>.
\<close>

theorem bst_remove_two_children_breaks_inorder:
  "traverseInOrder (bst_constructor maxComparator [2, 1, 5, 3, 4]) = Inr [1, 2, 3, 4, 5] \<and>
   fst (bst_remove maxComparator 2 (bst_constructor maxComparator [2, 1, 5, 3, 4])) = Inr 2 \<and>
   bst_size (snd (bst_remove maxComparator 2 (bst_constructor maxComparator [2, 1, 5, 3, 4]))) = 4 \<and>
   traverseInOrder (snd (bst_remove maxComparator 2 (bst_constructor maxComparator [2, 1, 5, 3, 4])))
     = Inr [1, 3, 4, 3, 4, 5] \<and>
   \<not> sorted_wrt (\<lambda>a b. maxComparator a b \<noteq> 1) [1, 3, 4, 3, 4, 5]"
  by code_simp

text \<open>
  The same happens in the test-suite's balanced tree, whose root 7 has the successor 11
  three levels down: the three checks of the test (size 16, 7 absent, 11 present) pass,
  and the traversal yields 11 and its right subtree twice.
\<close>

lemma bst_remove_balanced_tree_scenario:
  "bst_size (snd (bst_remove maxComparator 7
     (bst_constructor maxComparator [7, 5, 4, 2, 1, 3, 20, 18, 11, 14, 12, 15, 19, 25, 33, 28, 31]))) = 16 \<and>
   bst_find maxComparator 7 (snd (bst_remove maxComparator 7
     (bst_constructor maxComparator [7, 5, 4, 2, 1, 3, 20, 18, 11, 14, 12, 15, 19, 25, 33, 28, 31]))) = None \<and>
   bst_find maxComparator 11 (snd (bst_remove maxComparator 7
     (bst_constructor maxComparator [7, 5, 4, 2, 1, 3, 20, 18, 11, 14, 12, 15, 19, 25, 33, 28, 31]))) \<noteq> None \<and>
   traverseInOrder (snd (bst_remove maxComparator 7
     (bst_constructor maxComparator [7, 5, 4, 2, 1, 3, 20, 18, 11, 14, 12, 15, 19, 25, 33, 28, 31])))
   = Inr [1, 2, 3, 4, 5, 11, 12, 14, 15, 11, 12, 14, 15, 18, 19, 20, 25, 28, 31, 33]"
  by code_simp

text \<open>
  Where the successor is the direct right child, or the node has at most one child, the
  removal leaves the remaining values in order.
\<close>

lemma bst_remove_other_cases:
  "traverseInOrder (snd (bst_remove maxComparator 2 (bst_constructor maxComparator [2, 1, 3, 4])))
     = Inr [1, 3, 4] \<and>
   traverseInOrder (snd (bst_remove maxComparator 4 (bst_constructor maxComparator [2, 1, 3, 4])))
     = Inr [1, 2, 3] \<and>
   traverseInOrder (snd (bst_remove maxComparator 3 (bst_constructor maxComparator [2, 1, 3, 4])))
     = Inr [1, 2, 4] \<and>
   traverseInOrder (snd (bst_remove maxComparator 5 (bst_constructor maxComparator [2, 1, 5, 3, 4])))
     = Inr [1, 2, 3, 4]"
  by code_simp

text \<open>
  C2. The claim: when the successor is not the direct right child of the removed node, the
  left pointer of the successor's parent is replaced by the successor's right child, so
  that the successor node is no longer reachable. The code: \<^verbatim>\<open>findMinInTree\<close> assigns
  \<^verbatim>\<open>parent = root\<close> after \<^verbatim>\<open>root = root.left\<close>, so it returns the successor itself as
  its parent; \<^verbatim>\<open>successorParent.left = successor.right\<close> then writes the successor's own
  left pointer. In the tree built from \<open>[2, 1, 5, 3, 4]\<close>, after \<^verbatim>\<open>remove(2)\<close> the
  successor node 3 still hangs as the left child of 5, now with its right child 4 on both
  sides, while its value has also been copied to the root.
\<close>

theorem bst_remove_successor_not_detached:
  "findMinInTree (BinarySearchNode 5 (Some (BinarySearchNode 3 None (Some (BinarySearchNode 4 None None)))) None)
     [Right] ([], BinarySearchNode (2 :: int) None None)
   = (([Right, Left], BinarySearchNode 3 None (Some (BinarySearchNode 4 None None))),
      ([Right, Left], BinarySearchNode 3 None (Some (BinarySearchNode 4 None None)))) \<and>
   deref (bst_root (bst_constructor maxComparator [2, 1, 5, 3, 4])) [Right, Left]
   = Some (BinarySearchNode 3 None (Some (BinarySearchNode 4 None None))) \<and>
   deref (bst_root (snd (bst_remove maxComparator 2 (bst_constructor maxComparator [2, 1, 5, 3, 4]))))
     [Right, Left]
   = Some (BinarySearchNode 3 (Some (BinarySearchNode 4 None None)) (Some (BinarySearchNode 4 None None))) \<and>
   map_option val (bst_root (snd (bst_remove maxComparator 2 (bst_constructor maxComparator [2, 1, 5, 3, 4]))))
   = Some 3"
  by code_simp

end
